theory Spec2Isabelle
  imports Main "HOL-Library.Word" "HOL-Library.Signed_Division" "HOL-Library.Log_Nat"
begin

section \<open>Machine integers and arrays\<close>

text \<open>
  A C \<open>int\<close> is a 32-bit two's complement value: \<open>+\<close> and \<open>-\<close> wrap around,
  \<open>sint\<close> reads the value, \<open><s\<close> is the signed comparison.  An array is a list;
  an access outside the array is undefined behaviour in C and is the error
  \<open>OutOfBounds\<close> here.  The division \<open>/\<close> of C truncates towards zero; dividing
  by zero, and dividing \<open>INT_MIN\<close> by \<open>-1\<close>, trap and are the error \<open>DivisionError\<close>.
\<close>

type_synonym int32 = "32 word"

datatype error = OutOfBounds | DivisionError

definition load :: "'a list \<Rightarrow> int32 \<Rightarrow> error + 'a" where
  "load xs i =
     (if 0 \<le> sint i \<and> nat (sint i) < length xs then Inr (xs ! nat (sint i))
      else Inl OutOfBounds)"

definition store :: "'a list \<Rightarrow> int32 \<Rightarrow> 'a \<Rightarrow> error + 'a list" where
  "store xs i v =
     (if 0 \<le> sint i \<and> nat (sint i) < length xs then Inr (xs[nat (sint i) := v])
      else Inl OutOfBounds)"

definition c_div :: "int32 \<Rightarrow> int32 \<Rightarrow> error + int32" where
  "c_div a b =
     (if b = 0 \<or> (a = - (2 ^ 31) \<and> b = - 1) then Inl DivisionError
      else Inr (word_of_int (sint a sdiv sint b)))"

lemma sint_int32_range: "- (2 ^ 31) \<le> sint (w :: int32) \<and> sint w < 2 ^ 31"
  using sint_ge [of w] sint_lt [of w] by simp

lemma sint_int32_of_int:
  "- (2 ^ 31) \<le> k \<Longrightarrow> k < 2 ^ 31 \<Longrightarrow> sint (word_of_int k :: int32) = k"
  by (simp add: sint_sbintrunc' signed_take_bit_int_eq_self)

lemma sint_succ_sless:
  assumes "i <s m"
  shows "sint (i + 1 :: int32) = sint i + 1"
proof -
  from assms have "sint i < sint m" by (simp add: word_sless_alt)
  with sint_int32_range [of m] sint_int32_range [of i]
  have "- (2 ^ 31) \<le> sint i + 1" "sint i + 1 < 2 ^ 31" by simp_all
  then show ?thesis
    by (simp add: sint_word_ariths signed_take_bit_int_eq_self)
qed

section \<open>The partitioner\<close>

text \<open>
  The loop of \<open>split_num_between_processes\<close>, lines 36 to 41: the state is the
  counter \<open>i\<close>, \<open>element_position\<close> and the two arrays the caller passed in.
\<close>

function split_loop ::
  "int32 \<Rightarrow> int32 \<Rightarrow> int32 \<Rightarrow> int32 \<Rightarrow> int32 list \<Rightarrow> int32 list
     \<Rightarrow> error + (int32 \<times> int32 list \<times> int32 list)" where
  "split_loop elements_to_split num_bins i element_position
       num_elements_by_process displacements =
     (if i <s num_bins - 1 then
        (case store displacements i element_position of
           Inl e \<Rightarrow> Inl e
         | Inr displacements' \<Rightarrow>
        (case c_div elements_to_split num_bins of
           Inl e \<Rightarrow> Inl e
         | Inr q \<Rightarrow>
        (case store num_elements_by_process i q of
           Inl e \<Rightarrow> Inl e
         | Inr num_elements_by_process' \<Rightarrow>
             split_loop elements_to_split num_bins (i + 1) (element_position + q)
               num_elements_by_process' displacements')))
      else Inr (element_position, num_elements_by_process, displacements))"
  by pat_completeness auto
termination
proof (relation "measure (\<lambda>(e, nb, i, p, cs, ds). nat (sint (nb - 1) - sint i))")
  show "wf (measure (\<lambda>(e, nb, i, p, cs, ds). nat (sint (nb - 1) - sint i)))"
    by simp
next
  fix e nb i p x2a :: int32 and cs ds x2 x2b :: "int32 list"
  assume "i <s nb - 1"
  then have "sint i < sint (nb - 1)" "sint (i + 1) = sint i + 1"
    by (simp_all add: word_sless_alt sint_succ_sless)
  then show "((e, nb, i + 1, p + x2a, x2b, x2), e, nb, i, p, cs, ds)
      \<in> measure (\<lambda>(e, nb, i, p, cs, ds). nat (sint (nb - 1) - sint i))"
    by simp
qed

text \<open>
  \<open>split_num_between_processes\<close>, lines 30 to 47.  The two output arrays are the
  caller's, allocated by \<open>malloc\<close>: their contents on entry are arbitrary.  The
  result is the pair (\<open>num_elements_by_process\<close>, \<open>displacements\<close>) on return.
\<close>

definition split_num_between_processes ::
  "int32 \<Rightarrow> int32 \<Rightarrow> int32 list \<Rightarrow> int32 list \<Rightarrow> error + (int32 list \<times> int32 list)" where
  "split_num_between_processes elements_to_split num_bins
       num_elements_by_process displacements =
     (case split_loop elements_to_split num_bins 0 0
             num_elements_by_process displacements of
        Inl e \<Rightarrow> Inl e
      | Inr (element_position, num_elements_by_process', displacements') \<Rightarrow>
     (case store displacements' (num_bins - 1) element_position of
        Inl e \<Rightarrow> Inl e
      | Inr displacements'' \<Rightarrow>
     (case store num_elements_by_process' (num_bins - 1)
             (elements_to_split - element_position) of
        Inl e \<Rightarrow> Inl e
      | Inr num_elements_by_process'' \<Rightarrow>
          Inr (num_elements_by_process'', displacements''))))"

declare split_loop.simps [simp del]

section \<open>The distributor\<close>

text \<open>
  Modelled from the spec: \<open>MPI_Scatterv\<close> is the MPI library's and not part of the
  repository.  Called as on lines 112 to 114, it hands rank \<open>i\<close> the
  \<open>sendcounts[i]\<close> elements of the root's send buffer that start at index
  \<open>displs[i]\<close>: its Local Slice.  The result lists the receive buffers in rank
  order.  A block that does not lie inside the send buffer is an access out of bounds.
\<close>


definition local_slice :: "'a list \<Rightarrow> int32 \<Rightarrow> int32 \<Rightarrow> error + 'a list" where
  "local_slice sendbuf displ sendcount =
     (if 0 \<le> sint displ \<and> 0 \<le> sint sendcount
         \<and> nat (sint displ) + nat (sint sendcount) \<le> length sendbuf
      then Inr (take (nat (sint sendcount)) (drop (nat (sint displ)) sendbuf))
      else Inl OutOfBounds)"

fun MPI_Scatterv :: "'a list \<Rightarrow> int32 list \<Rightarrow> int32 list \<Rightarrow> error + 'a list list" where
  "MPI_Scatterv sendbuf (c # sendcounts) (d # displs) =
     (case local_slice sendbuf d c of
        Inl e \<Rightarrow> Inl e
      | Inr recvbuf \<Rightarrow>
     (case MPI_Scatterv sendbuf sendcounts displs of
        Inl e \<Rightarrow> Inl e
      | Inr recvbufs \<Rightarrow> Inr (recvbuf # recvbufs)))"
| "MPI_Scatterv sendbuf [] [] = Inr []"
| "MPI_Scatterv sendbuf _ _ = Inl OutOfBounds"


section \<open>The averagers\<close>

text \<open>
  The averagers compute on C \<open>float\<close> values.  The operations they use are the
  fields of an arithmetic: the constant \<open>0.f\<close>, the sum, product and quotient of two
  \<open>float\<close>s, and the conversion of an \<open>int\<close> operand to \<open>float\<close>.  The functions
  are written once over any arithmetic; \<open>exact\<close> is the arithmetic without rounding,
  on the rationals.  Its quotient by 0 is 0, as everywhere in HOL: the statements made
  with it divide by positive numbers only.
\<close>

record 'f arith =
  fzero :: 'f
  fadd :: "'f \<Rightarrow> 'f \<Rightarrow> 'f"
  fmul :: "'f \<Rightarrow> 'f \<Rightarrow> 'f"
  fdiv :: "'f \<Rightarrow> 'f \<Rightarrow> 'f"
  of_int32 :: "int32 \<Rightarrow> 'f"

text \<open>The loop of \<open>compute_avg\<close>, lines 53 to 55, and the function, lines 50 to 57.\<close>

function avg_loop :: "'f arith \<Rightarrow> 'f list \<Rightarrow> int32 \<Rightarrow> int32 \<Rightarrow> 'f \<Rightarrow> error + 'f" where
  "avg_loop A array num_elements i sum_acc =
     (if i <s num_elements then
        (case load array i of
           Inl e \<Rightarrow> Inl e
         | Inr x \<Rightarrow> avg_loop A array num_elements (i + 1) (fadd A sum_acc x))
      else Inr sum_acc)"
  by pat_completeness auto
termination
proof (relation "measure (\<lambda>(A, array, n, i, sum_acc). nat (sint n - sint i))")
  show "wf (measure (\<lambda>(A :: 'f arith, array :: 'f list, n :: int32, i :: int32, sum_acc :: 'f).
               nat (sint n - sint i)))"
    by simp
next
  fix A :: "'f arith" and array :: "'f list" and n i :: int32 and sum_acc x :: 'f
  assume "i <s n"
  then have "sint i < sint n" "sint (i + 1) = sint i + 1"
    by (simp_all add: word_sless_alt sint_succ_sless)
  then show "((A, array, n, i + 1, fadd A sum_acc x), A, array, n, i, sum_acc)
      \<in> measure (\<lambda>(A, array, n, i, sum_acc). nat (sint n - sint i))"
    by simp
qed

definition compute_avg :: "'f arith \<Rightarrow> 'f list \<Rightarrow> int32 \<Rightarrow> error + 'f" where
  "compute_avg A array num_elements =
     (case avg_loop A array num_elements 0 (fzero A) of
        Inl e \<Rightarrow> Inl e
      | Inr sum_acc \<Rightarrow> Inr (fdiv A sum_acc (of_int32 A num_elements)))"

text \<open>
  The loop of \<open>compute_weighted_avg\<close>, lines 65 to 68, and the function, lines 60 to
  70.  In \<open>weights_array[i] * array[i]\<close> and \<open>sum_weights += weights_array[i]\<close> the
  \<open>int\<close> weight is converted to \<open>float\<close> first.
\<close>

function weighted_loop ::
  "'f arith \<Rightarrow> 'f list \<Rightarrow> int32 list \<Rightarrow> int32 \<Rightarrow> int32 \<Rightarrow> 'f \<Rightarrow> 'f \<Rightarrow> error + ('f \<times> 'f)" where
  "weighted_loop A array weights_array num_elements i sum_acc sum_weights =
     (if i <s num_elements then
        (case load weights_array i of
           Inl e \<Rightarrow> Inl e
         | Inr w \<Rightarrow>
        (case load array i of
           Inl e \<Rightarrow> Inl e
         | Inr x \<Rightarrow>
             weighted_loop A array weights_array num_elements (i + 1)
               (fadd A sum_acc (fmul A (of_int32 A w) x))
               (fadd A sum_weights (of_int32 A w))))
      else Inr (sum_acc, sum_weights))"
  by pat_completeness auto
termination
proof (relation "measure (\<lambda>(A, array, ws, n, i, sum_acc, sw). nat (sint n - sint i))")
  show "wf (measure (\<lambda>(A :: 'f arith, array :: 'f list, ws :: int32 list, n :: int32,
               i :: int32, sum_acc :: 'f, sw :: 'f). nat (sint n - sint i)))"
    by simp
next
  fix A :: "'f arith" and array :: "'f list" and ws :: "int32 list"
    and n i w :: int32 and sum_acc sw x :: 'f
  assume "i <s n"
  then have "sint i < sint n" "sint (i + 1) = sint i + 1"
    by (simp_all add: word_sless_alt sint_succ_sless)
  then show "((A, array, ws, n, i + 1, fadd A sum_acc (fmul A (of_int32 A w) x),
        fadd A sw (of_int32 A w)), A, array, ws, n, i, sum_acc, sw)
      \<in> measure (\<lambda>(A, array, ws, n, i, sum_acc, sw). nat (sint n - sint i))"
    by simp
qed

definition compute_weighted_avg ::
  "'f arith \<Rightarrow> 'f list \<Rightarrow> int32 list \<Rightarrow> int32 \<Rightarrow> error + 'f" where
  "compute_weighted_avg A array weights_array num_elements =
     (case weighted_loop A array weights_array num_elements 0 (fzero A) (fzero A) of
        Inl e \<Rightarrow> Inl e
      | Inr (sum_acc, sum_weights) \<Rightarrow> Inr (fdiv A sum_acc sum_weights))"

definition exact :: "rat arith" where
  "exact = \<lparr>fzero = 0, fadd = (+), fmul = (*), fdiv = (/), of_int32 = (\<lambda>w. of_int (sint w))\<rparr>"


declare avg_loop.simps [simp del] weighted_loop.simps [simp del]

text \<open>
  The formula of the specification, \<open>sum(weight[i] * value[i]) / sum(weight[i])\<close>: the
  sum of the weighted values divided by the sum of the weights, a sum being taken from
  \<open>0.f\<close> in index order.
\<close>

definition fsum :: "'f arith \<Rightarrow> 'f list \<Rightarrow> 'f" where
  "fsum A xs = foldl (fadd A) (fzero A) xs"

definition spec_weighted_mean :: "'f arith \<Rightarrow> 'f list \<Rightarrow> int32 list \<Rightarrow> 'f" where
  "spec_weighted_mean A values weights =
     fdiv A (fsum A (map2 (\<lambda>w v. fmul A (of_int32 A w) v) weights values))
            (fsum A (map (of_int32 A) weights))"

section \<open>IEEE 754 single precision\<close>

text \<open>
  The arithmetic of a C \<open>float\<close> where it is IEEE 754 binary32 and every operation is
  rounded to \<open>float\<close>, to nearest with ties to even: a value is a NaN, an infinity
  with its sign, or a finite number with its sign bit (\<open>True\<close> is minus) and its
  magnitude, a rational.  \<open>round32\<close> rounds a magnitude to 24 significant bits, with
  the exponent of the least significant bit no lower than \<open>-149\<close> (subnormal
  numbers) and the result an infinity from \<open>2 ^ 128\<close> on.
\<close>


datatype float32 = NaN | Inf bool | Fin bool rat

definition pow2 :: "int \<Rightarrow> rat" where
  "pow2 e = (if 0 \<le> e then 2 ^ nat e else 1 / 2 ^ nat (- e))"

definition ilog2 :: "rat \<Rightarrow> int" where
  "ilog2 r =
     (let (a, b) = quotient_of r; e = bitlen a - bitlen b
      in if pow2 e \<le> r then e else e - 1)"

definition round_even :: "rat \<Rightarrow> int" where
  "round_even x =
     (let n = \<lfloor>x\<rfloor>; d = x - of_int n
      in if d < 1 / 2 then n else if 1 / 2 < d then n + 1
         else if even n then n else n + 1)"

definition round32 :: "bool \<Rightarrow> rat \<Rightarrow> float32" where
  "round32 s r =
     (if r = 0 then Fin s 0
      else
        let e = max (ilog2 r) (- 126);
            u = pow2 (e - 23);
            v = of_int (round_even (r / u)) * u
        in if pow2 128 \<le> v then Inf s else Fin s v)"

definition fl :: "rat \<Rightarrow> float32" where
  "fl x = round32 (x < 0) \<bar>x\<bar>"

definition sval :: "bool \<Rightarrow> rat \<Rightarrow> rat" where
  "sval s r = (if s then - r else r)"

fun fadd32 :: "float32 \<Rightarrow> float32 \<Rightarrow> float32" where
  "fadd32 (Fin s x) (Fin t y) =
     (let z = sval s x + sval t y in if z = 0 then Fin (s \<and> t) 0 else fl z)"
| "fadd32 (Inf s) (Inf t) = (if s = t then Inf s else NaN)"
| "fadd32 (Inf s) (Fin t y) = Inf s"
| "fadd32 (Fin s x) (Inf t) = Inf t"
| "fadd32 _ _ = NaN"

fun fmul32 :: "float32 \<Rightarrow> float32 \<Rightarrow> float32" where
  "fmul32 (Fin s x) (Fin t y) = round32 (s \<noteq> t) (x * y)"
| "fmul32 (Inf s) (Inf t) = Inf (s \<noteq> t)"
| "fmul32 (Inf s) (Fin t y) = (if y = 0 then NaN else Inf (s \<noteq> t))"
| "fmul32 (Fin s x) (Inf t) = (if x = 0 then NaN else Inf (s \<noteq> t))"
| "fmul32 _ _ = NaN"

fun fdiv32 :: "float32 \<Rightarrow> float32 \<Rightarrow> float32" where
  "fdiv32 (Fin s x) (Fin t y) =
     (if y = 0 then (if x = 0 then NaN else Inf (s \<noteq> t)) else round32 (s \<noteq> t) (x / y))"
| "fdiv32 (Inf s) (Fin t y) = Inf (s \<noteq> t)"
| "fdiv32 (Fin s x) (Inf t) = Fin (s \<noteq> t) 0"
| "fdiv32 _ _ = NaN"

definition float_of_int32 :: "int32 \<Rightarrow> float32" where
  "float_of_int32 w = fl (of_int (sint w))"

definition ieee_single :: "float32 arith" where
  "ieee_single = \<lparr>fzero = Fin False 0, fadd = fadd32, fmul = fmul32, fdiv = fdiv32,
     of_int32 = float_of_int32\<rparr>"

text \<open>
  For the proofs about rounding: \<open>rnd\<close> is the magnitude \<open>round32\<close> rounds to before
  it tests for overflow, \<open>representable\<close> are the magnitudes on the grid of
  \<open>float\<close>, \<open>finite32\<close> are the values that are neither a NaN nor an infinity, and
  \<open>canonical\<close> are the values an operation can return.
\<close>

definition rnd :: "rat \<Rightarrow> rat" where
  "rnd r = (let u = pow2 (max (ilog2 r) (- 126) - 23) in of_int (round_even (r / u)) * u)"

definition representable :: "rat \<Rightarrow> bool" where
  "representable v \<longleftrightarrow>
     (\<exists>k e. - 126 \<le> e \<and> 0 \<le> k \<and> k \<le> 2 ^ 24 \<and> v = of_int k * pow2 (e - 23))"

definition finite32 :: "float32 \<Rightarrow> bool" where
  "finite32 a = (case a of Fin s v \<Rightarrow> True | _ \<Rightarrow> False)"

definition canonical :: "float32 \<Rightarrow> bool" where
  "canonical a = (case a of Fin s v \<Rightarrow> 0 \<le> v \<and> representable v | _ \<Rightarrow> True)"

section \<open>The program\<close>

text \<open>
  \<open>create_rand_nums\<close>, lines 18 to 26: element \<open>i\<close> is the \<open>i\<close>-th result of
  \<open>rand()\<close> divided by \<open>(float)RAND_MAX\<close>.  The results of \<open>rand\<close> and the value of
  \<open>RAND_MAX\<close> are the C library's and are parameters here.
\<close>

definition create_rand_nums :: "'f arith \<Rightarrow> (nat \<Rightarrow> int32) \<Rightarrow> int32 \<Rightarrow> int32 \<Rightarrow> 'f list" where
  "create_rand_nums A rand RAND_MAX num_elements =
     map (\<lambda>i. fdiv A (of_int32 A (rand i)) (of_int32 A RAND_MAX))
       [0..<nat (sint num_elements)]"

text \<open>
  What one process of the program does that can be observed from outside: what it
  writes to standard error and standard output, and the library calls it makes, in
  order, and how it ends: \<open>exit\<close> with a code, return from \<open>main\<close>, a failed
  \<open>assert\<close>, or undefined behaviour.
\<close>

datatype 'f event =
    Fprintf_stderr string
  | Printf string 'f
  | Call_srand int32
  | Call_MPI_Init
  | Call_MPI_Comm_rank
  | Call_MPI_Comm_size
  | Call_MPI_Scatterv "int32 list" "int32 list" int32
  | Call_MPI_Gather 'f
  | Call_MPI_Barrier
  | Call_MPI_Finalize

datatype status = Exited int32 | Returned int32 | Aborted | Undefined error

text \<open>
  What the process is given by the C library and the MPI launcher: \<open>atoi\<close>, the
  clock, the results of \<open>rand\<close> on the root, its rank and the number of processes,
  and the contents of the memory \<open>malloc\<close> returns.
\<close>

record environment =
  atoi :: "string \<Rightarrow> int32"
  time_now :: int32
  rand :: "nat \<Rightarrow> int32"
  RAND_MAX :: int32
  world_rank :: int32
  world_size :: int32
  uninitialised :: "nat \<Rightarrow> int32"

definition malloc_ints :: "environment \<Rightarrow> int32 \<Rightarrow> int32 list" where
  "malloc_ints env n = map (uninitialised env) [0..<nat (sint n)]"

fun all_ranks :: "(error + 'a) list \<Rightarrow> error + 'a list" where
  "all_ranks [] = Inr []"
| "all_ranks (Inl e # rs) = Inl e"
| "all_ranks (Inr x # rs) = (case all_ranks rs of Inl e \<Rightarrow> Inl e | Inr xs \<Rightarrow> Inr (x # xs))"

definition usage :: string where
  "usage = ''Usage: avg total_num_elements'' @ [CHR 0x0A]"

text \<open>
  The data the two collective operations move, lines 112 to 125: the root's array
  is cut into the Local Slices by \<open>MPI_Scatterv\<close>, every rank averages its slice, and
  \<open>MPI_Gather\<close> collects the averages on the root in rank order.
\<close>

definition collectives ::
  "'f arith \<Rightarrow> environment \<Rightarrow> int32 \<Rightarrow> int32 list \<Rightarrow> int32 list
     \<Rightarrow> error + ('f list \<times> 'f list list \<times> 'f list)" where
  "collectives A env total_num_elements num_elements_by_process displacements =
     (let rand_nums = create_rand_nums A (rand env) (RAND_MAX env) total_num_elements
      in case MPI_Scatterv rand_nums num_elements_by_process displacements of
           Inl e \<Rightarrow> Inl e
         | Inr slices \<Rightarrow>
        (case all_ranks (map2 (compute_avg A) slices num_elements_by_process) of
           Inl e \<Rightarrow> Inl e
         | Inr sub_avgs \<Rightarrow> Inr (rand_nums, slices, sub_avgs)))"

text \<open>
  \<open>main\<close>, lines 72 to 151, on the process of rank \<open>world_rank env\<close>.  An
  allocation of a negative number of elements fails, and the \<open>assert\<close> after it
  aborts the process.
\<close>

definition main :: "'f arith \<Rightarrow> environment \<Rightarrow> int32 \<Rightarrow> string list \<Rightarrow> 'f event list \<times> status" where
  "main A env argc argv =
     (if argc \<noteq> 2 then ([Fprintf_stderr usage], Exited 1)
      else
        case load argv 1 of
          Inl e \<Rightarrow> ([], Undefined e)
        | Inr arg \<Rightarrow>
        let total_num_elements = atoi env arg;
            started = [Call_srand (time_now env), Call_MPI_Init,
                       Call_MPI_Comm_rank, Call_MPI_Comm_size]
        in
        if (world_rank env = 0 \<and> sint total_num_elements < 0) \<or> sint (world_size env) < 0
        then (started, Aborted)
        else
        case split_num_between_processes total_num_elements (world_size env)
               (malloc_ints env (world_size env)) (malloc_ints env (world_size env)) of
          Inl e \<Rightarrow> (started, Undefined e)
        | Inr (num_elements_by_process, displacements) \<Rightarrow>
        (case load num_elements_by_process (world_rank env) of
          Inl e \<Rightarrow> (started, Undefined e)
        | Inr recvcount \<Rightarrow>
        if sint recvcount < 0 then (started, Aborted)
        else
        let scattered = started
              @ [Call_MPI_Scatterv num_elements_by_process displacements recvcount]
        in
        (case collectives A env total_num_elements num_elements_by_process displacements of
          Inl e \<Rightarrow> (scattered, Undefined e)
        | Inr (rand_nums, slices, sub_avgs) \<Rightarrow>
        (case load sub_avgs (world_rank env) of
          Inl e \<Rightarrow> (scattered, Undefined e)
        | Inr sub_avg \<Rightarrow>
        let gathered = scattered @ [Call_MPI_Gather sub_avg]
        in
        if world_rank env = 0 then
          (case compute_weighted_avg A sub_avgs num_elements_by_process (world_size env) of
            Inl e \<Rightarrow> (gathered, Undefined e)
          | Inr avg \<Rightarrow>
          (case compute_avg A rand_nums total_num_elements of
            Inl e \<Rightarrow> (gathered @ [Printf (''Avg of all elements is %f'' @ [CHR 0x0A]) avg], Undefined e)
          | Inr original_data_avg \<Rightarrow>
              (gathered
                 @ [Printf (''Avg of all elements is %f'' @ [CHR 0x0A]) avg,
                    Printf (''Avg computed across original data is %f'' @ [CHR 0x0A])
                      original_data_avg,
                    Call_MPI_Barrier, Call_MPI_Finalize],
               Returned 0)))
        else (gathered @ [Call_MPI_Barrier, Call_MPI_Finalize], Returned 0)))))"

section \<open>Properties of the partitioner\<close>


lemma store_ok:
  "0 \<le> sint i \<Longrightarrow> nat (sint i) < length xs \<Longrightarrow> store xs i v = Inr (xs[nat (sint i) := v])"
  by (simp add: store_def)

lemma c_div_nonneg:
  assumes "0 \<le> sint a" "1 \<le> sint b"
  shows "c_div a b = Inr (word_of_int (sint a div sint b))"
proof -
  from assms have "b \<noteq> 0" by auto
  moreover from assms have "a \<noteq> - (2 ^ 31)" by auto
  moreover from assms have "sint a sdiv sint b = sint a div sint b"
    by (simp add: signed_divide_int_def sgn_if)
  ultimately show ?thesis by (simp add: c_div_def)
qed

lemma sint_pred:
  assumes "1 \<le> sint (nb :: int32)"
  shows "sint (nb - 1) = sint nb - 1"
proof -
  from assms sint_int32_range [of nb]
  have "- (2 ^ 31) \<le> sint nb - 1" "sint nb - 1 < 2 ^ 31" by simp_all
  then show ?thesis
    by (simp add: sint_word_ariths signed_take_bit_int_eq_self)
qed

text \<open>The state of the loop after it has run from \<open>i\<close> to \<open>num_bins - 1\<close>.\<close>

lemma split_loop_run:
  assumes "1 \<le> sint nb" "c_div e nb = Inr q"
    and "length cs = nat (sint nb)" "length ds = nat (sint nb)"
    and "0 \<le> sint i" "sint i \<le> sint nb - 1" "k = nat (sint i)" "m = nat (sint nb) - 1"
  shows "split_loop e nb i pos cs ds =
     Inr (pos + of_nat (m - k) * q,
          take k cs @ replicate (m - k) q @ drop m cs,
          take k ds @ map (\<lambda>j. pos + of_nat (j - k) * q) [k..<m] @ drop m ds)"
  using assms
proof (induction "m - k" arbitrary: i k pos cs ds)
  case 0
  then have "\<not> i <s nb - 1" 
    by (simp add: word_sless_alt sint_pred)
  moreover from 0 have "k = m" by simp arith
  moreover from 0 have "m \<le> length cs" "m \<le> length ds" by simp_all
  ultimately show ?case
    by (simp add: split_loop.simps [of e nb i])
next
  case (Suc d)
  then have lt: "i <s nb - 1" and km: "k < m"
    by (simp_all add: word_sless_alt sint_pred) arith+
  have s1: "sint (i + 1) = sint i + 1" using lt by (rule sint_succ_sless)
  have len: "k < length cs" "k < length ds" using Suc.prems km by simp_all
  have st1: "store ds i pos = Inr (ds[k := pos])"
    using Suc.prems len by (simp add: store_def)
  have st2: "store cs i q = Inr (cs[k := q])"
    using Suc.prems len by (simp add: store_def)
  have step: "split_loop e nb i pos cs ds =
      split_loop e nb (i + 1) (pos + q) (cs[k := q]) (ds[k := pos])"
    using lt st1 st2 Suc.prems(2)
    by (simp add: split_loop.simps [of e nb i])
  have ih: "split_loop e nb (i + 1) (pos + q) (cs[k := q]) (ds[k := pos]) =
     Inr (pos + q + of_nat (m - Suc k) * q,
          take (Suc k) (cs[k := q]) @ replicate (m - Suc k) q @ drop m (cs[k := q]),
          take (Suc k) (ds[k := pos]) @ map (\<lambda>j. pos + q + of_nat (j - Suc k) * q) [Suc k..<m]
            @ drop m (ds[k := pos]))"
  proof (rule Suc.hyps(1))
    show "d = m - Suc k" using Suc.hyps(2) by simp
    show "Suc k = nat (sint (i + 1))" using s1 Suc.prems by simp
    show "sint (i + 1) \<le> sint nb - 1" using s1 km Suc.prems by simp
    show "0 \<le> sint (i + 1)" using s1 Suc.prems by simp
  qed (use Suc.prems in simp_all)
  have a: "pos + q + of_nat (m - Suc k) * q = pos + of_nat (m - k) * q"
    using km by (simp add: Suc_diff_Suc [symmetric] algebra_simps del: Suc_diff_Suc)
  have b: "take (Suc k) (cs[k := q]) @ replicate (m - Suc k) q @ drop m (cs[k := q])
      = take k cs @ replicate (m - k) q @ drop m cs"
  proof -
    have "take (Suc k) (cs[k := q]) = take k cs @ [q]"
      using len by (simp add: take_Suc_conv_app_nth)
    moreover have "replicate (m - k) q = q # replicate (m - Suc k) q"
      using km by (simp add: Suc_diff_Suc [symmetric] del: Suc_diff_Suc)
    moreover have "drop m (cs[k := q]) = drop m cs"
      using km by simp
    ultimately show ?thesis by simp
  qed
  have c: "take (Suc k) (ds[k := pos]) @ map (\<lambda>j. pos + q + of_nat (j - Suc k) * q) [Suc k..<m]
            @ drop m (ds[k := pos])
      = take k ds @ map (\<lambda>j. pos + of_nat (j - k) * q) [k..<m] @ drop m ds"
  proof -
    have "take (Suc k) (ds[k := pos]) = take k ds @ [pos]"
      using len by (simp add: take_Suc_conv_app_nth)
    moreover have "map (\<lambda>j. pos + of_nat (j - k) * q) [k..<m]
        = pos # map (\<lambda>j. pos + q + of_nat (j - Suc k) * q) [Suc k..<m]"
    proof -
      have "\<And>j. Suc k \<le> j \<Longrightarrow> pos + of_nat (j - k) * q = pos + q + of_nat (j - Suc k) * q"
        by (simp add: Suc_diff_Suc [symmetric] algebra_simps del: Suc_diff_Suc)
      then show ?thesis using km by (simp add: upt_conv_Cons)
    qed
    moreover have "drop m (ds[k := pos]) = drop m ds"
      using km by simp
    ultimately show ?thesis by simp
  qed
  show ?case by (simp only: step ih a b c)
qed


lemma split_words:
  assumes "c_div e nb = Inr q" "1 \<le> sint nb"
    and "length cs = nat (sint nb)" "length ds = nat (sint nb)"
    and "m = nat (sint nb) - 1"
  shows "split_num_between_processes e nb cs ds =
     Inr (replicate m q @ [e - of_nat m * q], map (\<lambda>j. of_nat j * q) [0..<m] @ [of_nat m * q])"
proof -
  have cd: "c_div e nb = Inr q" by (rule assms(1))
  have loop: "split_loop e nb 0 0 cs ds =
     Inr (of_nat m * q, replicate m q @ drop m cs, map (\<lambda>j. of_nat j * q) [0..<m] @ drop m ds)"
    using split_loop_run [OF assms(2) cd assms(3,4), of 0 0 m 0] assms(2,5) by simp
  have idx: "0 \<le> sint (nb - 1)" "nat (sint (nb - 1)) = m"
    using assms(2,5) by (simp_all add: sint_pred)
  have "length (drop m cs) = 1" "length (drop m ds) = 1"
    using assms by simp_all
  then obtain c d where dr: "drop m cs = [c]" "drop m ds = [d]"
    by (metis One_nat_def length_0_conv length_Suc_conv)
  have st1: "store (map (\<lambda>j. of_nat j * q) [0..<m] @ drop m ds) (nb - 1) (of_nat m * q)
      = Inr (map (\<lambda>j. of_nat j * q) [0..<m] @ [of_nat m * q])"
    using idx dr by (simp add: store_def list_update_append)
  have st2: "store (replicate m q @ drop m cs) (nb - 1) (e - of_nat m * q)
      = Inr (replicate m q @ [e - of_nat m * q])"
    using idx dr by (simp add: store_def list_update_append)
  show ?thesis
    by (simp add: split_num_between_processes_def loop st1 st2)
qed

text \<open>The same plan read as integers: nothing wraps around.\<close>

lemma quotient_bounds:
  assumes "0 \<le> (E :: int)" "1 \<le> N" "0 \<le> j" "j \<le> N"
  shows "0 \<le> j * (E div N)" "j * (E div N) \<le> E"
proof -
  have q0: "0 \<le> E div N" using assms by (simp add: pos_imp_zdiv_nonneg_iff)
  show "0 \<le> j * (E div N)" using assms q0 by simp
  have "j * (E div N) \<le> N * (E div N)" using assms q0 by (simp add: mult_right_mono)
  also have "\<dots> \<le> E"
    using mult_div_mod_eq [of N E] pos_mod_sign [of N E] assms by linarith
  finally show "j * (E div N) \<le> E" .
qed

lemma sint_of_nat_mult:
  assumes "0 \<le> sint (e :: int32)" "1 \<le> sint (nb :: int32)" "j \<le> nat (sint nb)"
  shows "sint (of_nat j * (word_of_int (sint e div sint nb) :: int32)) = int j * (sint e div sint nb)"
proof -
  have "0 \<le> int j * (sint e div sint nb)" "int j * (sint e div sint nb) \<le> sint e"
    using quotient_bounds [of "sint e" "sint nb" "int j"] assms by simp_all
  with sint_int32_range [of e]
  have r: "- (2 ^ 31) \<le> int j * (sint e div sint nb)" "int j * (sint e div sint nb) < 2 ^ 31"
    by simp_all
  have "of_nat j * (word_of_int (sint e div sint nb) :: int32)
      = word_of_int (int j * (sint e div sint nb))"
    by simp
  then show ?thesis using r by (simp only: sint_int32_of_int)
qed


lemma c_div_defined:
  assumes "1 \<le> sint nb"
  shows "c_div e nb = Inr (word_of_int (sint e sdiv sint nb))"
proof -
  from assms have "nb \<noteq> 0" "nb \<noteq> - 1" by auto
  then show ?thesis by (simp add: c_div_def)
qed

lemma split_plan:
  assumes "0 \<le> sint e" "1 \<le> sint nb"
    and "length cs = nat (sint nb)" "length ds = nat (sint nb)"
  shows "\<exists>count offset.
     split_num_between_processes e nb cs ds = Inr (count, offset) \<and>
     map sint count = replicate (nat (sint nb) - 1) (sint e div sint nb)
                        @ [sint e - (sint nb - 1) * (sint e div sint nb)] \<and>
     map sint offset = map (\<lambda>j. int j * (sint e div sint nb)) [0..<nat (sint nb)]"
proof -
  define m where "m = nat (sint nb) - 1"
  define q :: int32 where "q = word_of_int (sint e div sint nb)"
  have mn: "nat (sint nb) = Suc m" "int m = sint nb - 1"
    using assms(2) by (simp_all add: m_def)
  have cd: "c_div e nb = Inr q"
    using assms(1,2) by (simp add: c_div_nonneg q_def)
  have res: "split_num_between_processes e nb cs ds =
     Inr (replicate m q @ [e - of_nat m * q], map (\<lambda>j. of_nat j * q) [0..<m] @ [of_nat m * q])"
    using cd assms(2-4) m_def by (rule split_words)
  have sq: "\<And>j. j \<le> Suc m \<Longrightarrow> sint (of_nat j * q) = int j * (sint e div sint nb)"
    unfolding q_def using assms(1,2) mn(1) by (simp add: sint_of_nat_mult)
  have q1: "sint q = sint e div sint nb"
    using sq [of 1] by simp
  have last: "sint (e - of_nat m * q) = sint e - int m * (sint e div sint nb)"
  proof -
    have b: "0 \<le> int m * (sint e div sint nb)" "int m * (sint e div sint nb) \<le> sint e"
      using quotient_bounds [of "sint e" "sint nb" "int m"] assms(1,2) mn(2) by simp_all
    with sint_int32_range [of e]
    have r: "- (2 ^ 31) \<le> sint e - int m * (sint e div sint nb)"
      "sint e - int m * (sint e div sint nb) < 2 ^ 31" by simp_all
    have "sint (e - of_nat m * q) = signed_take_bit 31 (sint e - int m * (sint e div sint nb))"
      using sq [of m] by (simp add: sint_word_ariths)
    then show ?thesis using r by (simp add: signed_take_bit_int_eq_self)
  qed
  have c: "map sint (replicate m q @ [e - of_nat m * q])
      = replicate (nat (sint nb) - 1) (sint e div sint nb)
          @ [sint e - (sint nb - 1) * (sint e div sint nb)]"
    unfolding m_def [symmetric] mn(2) [symmetric] using q1 last by simp
  have d: "map sint (map (\<lambda>j. of_nat j * q) [0..<m] @ [of_nat m * q])
      = map (\<lambda>j. int j * (sint e div sint nb)) [0..<nat (sint nb)]"
    using sq by (simp add: mn(1) del: of_nat_Suc)
  show ?thesis using res c d by blast
qed


text \<open>
  C1: for every \<open>total_elements \<ge> 0\<close> and \<open>num_workers \<ge> 1\<close>, called on two
  arrays of \<open>num_workers\<close> cells with any contents, the partitioner returns a plan
  whose counts sum exactly to \<open>total_elements\<close>, whose offset \<open>i\<close> is the sum of
  the counts before \<open>i\<close>, and whose counts are all non-negative.
\<close>

theorem partition_plan_invariant:
  assumes "0 \<le> sint total_elements" "1 \<le> sint num_workers"
    and "length cs = nat (sint num_workers)" "length ds = nat (sint num_workers)"
  shows "\<exists>count offset.
     split_num_between_processes total_elements num_workers cs ds = Inr (count, offset) \<and>
     length count = nat (sint num_workers) \<and> length offset = nat (sint num_workers) \<and>
     sum_list (map sint count) = sint total_elements \<and>
     (\<forall>i < nat (sint num_workers). sint (offset ! i) = sum_list (map sint (take i count))) \<and>
     (\<forall>i < nat (sint num_workers). 0 \<le> sint (count ! i))"
proof -
  let ?E = "sint total_elements" and ?N = "sint num_workers"
  let ?Q = "?E div ?N" and ?m = "nat ?N - 1"
  from split_plan [OF assms] obtain count offset where
    res: "split_num_between_processes total_elements num_workers cs ds = Inr (count, offset)"
    and c: "map sint count = replicate ?m ?Q @ [?E - (?N - 1) * ?Q]"
    and d: "map sint offset = map (\<lambda>j. int j * ?Q) [0..<nat ?N]"
    by blast
  have mn: "nat ?N = Suc ?m" "int ?m = ?N - 1" using assms(2) by simp_all
  have lc: "length count = nat ?N"
    using arg_cong [OF c, of length] mn(1) by simp
  have ld: "length offset = nat ?N"
    using arg_cong [OF d, of length] by simp
  have total: "sum_list (map sint count) = ?E"
    unfolding c using mn(2) by (simp add: sum_list_replicate)
  have offs: "sint (offset ! i) = sum_list (map sint (take i count))" if "i < nat ?N" for i
  proof -
    have "sint (offset ! i) = map sint offset ! i" using that ld by simp
    also have "\<dots> = int i * ?Q" unfolding d using that by simp
    finally have l: "sint (offset ! i) = int i * ?Q" .
    have "i \<le> ?m" using that by simp
    then have "take i (map sint count) = replicate i ?Q"
      unfolding c by (simp add: min_def)
    then have "sum_list (map sint (take i count)) = int i * ?Q"
      by (simp add: take_map sum_list_replicate)
    with l show ?thesis by simp
  qed
  have q0: "0 \<le> ?Q" using assms(1,2) by (simp add: pos_imp_zdiv_nonneg_iff)
  have lastnn: "0 \<le> ?E - (?N - 1) * ?Q"
    using quotient_bounds(2) [of ?E ?N "?N - 1"] assms(1,2) by simp
  have nn: "0 \<le> sint (count ! i)" if "i < nat ?N" for i
  proof -
    have "sint (count ! i) = map sint count ! i" using that lc by simp
    also have "\<dots> = (replicate ?m ?Q @ [?E - (?N - 1) * ?Q]) ! i" by (simp only: c)
    finally show ?thesis using q0 lastnn that
      by (simp add: nth_append)
  qed
  show ?thesis using res lc ld total offs nn by blast
qed

theorem partition_plan_invariant_witness:
  "\<exists>count offset.
     split_num_between_processes 10 3 [7, 7, 7] [9, 9, 9] = Inr (count, offset) \<and>
     length count = 3 \<and> length offset = 3 \<and>
     sum_list (map sint count) = 10 \<and>
     (\<forall>i < 3. sint (offset ! i) = sum_list (map sint (take i count))) \<and>
     (\<forall>i < 3. 0 \<le> sint (count ! i))"
  using partition_plan_invariant [of 10 3 "[7, 7, 7]" "[9, 9, 9]"] by simp


text \<open>
  C4: for every \<open>total_elements \<ge> 0\<close> and \<open>num_workers \<ge> 1\<close> the partitioner
  gives \<open>floor (total_elements / num_workers)\<close> elements to each of the first
  \<open>num_workers - 1\<close> workers, the offsets start at 0 and each next offset is the
  previous one plus the previous count, and the last worker gets all the remaining
  elements.  For 10 elements and 3 workers the plan is counts 3, 3, 4 and offsets
  0, 3, 6.
\<close>

theorem partition_policy:
  assumes "0 \<le> sint total_elements" "1 \<le> sint num_workers"
    and "length cs = nat (sint num_workers)" "length ds = nat (sint num_workers)"
  shows "\<exists>count offset.
     split_num_between_processes total_elements num_workers cs ds = Inr (count, offset) \<and>
     length count = nat (sint num_workers) \<and> length offset = nat (sint num_workers) \<and>
     (\<forall>i < nat (sint num_workers) - 1.
        sint (count ! i) = sint total_elements div sint num_workers) \<and>
     sint (offset ! 0) = 0 \<and>
     (\<forall>i < nat (sint num_workers) - 1.
        sint (offset ! Suc i) = sint (offset ! i) + sint (count ! i)) \<and>
     sint (count ! (nat (sint num_workers) - 1))
       = sint total_elements
           - (sint num_workers - 1) * (sint total_elements div sint num_workers)"
proof -
  let ?E = "sint total_elements" and ?N = "sint num_workers"
  let ?Q = "?E div ?N" and ?m = "nat ?N - 1"
  from split_plan [OF assms] obtain count offset where
    res: "split_num_between_processes total_elements num_workers cs ds = Inr (count, offset)"
    and c: "map sint count = replicate ?m ?Q @ [?E - (?N - 1) * ?Q]"
    and d: "map sint offset = map (\<lambda>j. int j * ?Q) [0..<nat ?N]"
    by blast
  have mn: "nat ?N = Suc ?m" using assms(2) by simp
  have lc: "length count = nat ?N"
    using arg_cong [OF c, of length] mn by simp
  have ld: "length offset = nat ?N"
    using arg_cong [OF d, of length] by simp
  have cnt: "sint (count ! i) = (replicate ?m ?Q @ [?E - (?N - 1) * ?Q]) ! i" if "i < nat ?N" for i
    using that lc nth_map [of i count sint] by (simp only: c)
  have off: "sint (offset ! i) = int i * ?Q" if "i < nat ?N" for i
    using that ld nth_map [of i offset sint] unfolding d by simp
  have first: "sint (count ! i) = ?Q" if "i < ?m" for i
    using that cnt [of i] by (simp add: nth_append)
  have zero: "sint (offset ! 0) = 0"
    using off [of 0] assms(2) by simp
  have seq: "sint (offset ! Suc i) = sint (offset ! i) + sint (count ! i)" if "i < ?m" for i
    using that off [of i] off [of "Suc i"] first [of i] by (simp add: algebra_simps)
  have last: "sint (count ! ?m) = ?E - (?N - 1) * ?Q"
    using cnt [of ?m] mn by (simp add: nth_append)
  show ?thesis using res lc ld first zero seq last by blast
qed

theorem partition_policy_witness:
  "split_num_between_processes 10 3 [7, 7, 7] [9, 9, 9] = Inr ([3, 3, 4], [0, 3, 6])
   \<and> (\<exists>count offset.
     split_num_between_processes 10 3 [7, 7, 7] [9, 9, 9] = Inr (count, offset) \<and>
     length count = 3 \<and> length offset = 3 \<and>
     (\<forall>i < 2. sint (count ! i) = 3) \<and>
     sint (offset ! 0) = 0 \<and>
     (\<forall>i < 2. sint (offset ! Suc i) = sint (offset ! i) + sint (count ! i)) \<and>
     sint (count ! 2) = 4)"
proof
  show "split_num_between_processes 10 3 [7, 7, 7] [9, 9, 9] = Inr ([3, 3, 4], [0, 3, 6])"
    by code_simp
  show "\<exists>count offset.
     split_num_between_processes 10 3 [7, 7, 7] [9, 9, 9] = Inr (count, offset) \<and>
     length count = 3 \<and> length offset = 3 \<and>
     (\<forall>i < 2. sint (count ! i) = 3) \<and>
     sint (offset ! 0) = 0 \<and>
     (\<forall>i < 2. sint (offset ! Suc i) = sint (offset ! i) + sint (count ! i)) \<and>
     sint (count ! 2) = 4"
    using partition_policy [of 10 3 "[7, 7, 7]" "[9, 9, 9]"] by simp
qed

text \<open>
  C9: for every \<open>total_elements \<ge> 0\<close> and \<open>num_workers \<ge> 1\<close> the count of the
  last worker is \<open>floor (total_elements / num_workers)\<close> plus
  \<open>total_elements mod num_workers\<close>; no worker has more elements than the last one,
  and the last one has at most \<open>num_workers - 1\<close> more than any other.
\<close>

theorem last_worker_share:
  assumes "0 \<le> sint total_elements" "1 \<le> sint num_workers"
    and "length cs = nat (sint num_workers)" "length ds = nat (sint num_workers)"
  shows "\<exists>count offset.
     split_num_between_processes total_elements num_workers cs ds = Inr (count, offset) \<and>
     length count = nat (sint num_workers) \<and>
     sint (count ! (nat (sint num_workers) - 1))
       = sint total_elements div sint num_workers + sint total_elements mod sint num_workers \<and>
     (\<forall>i < nat (sint num_workers).
        sint (count ! i) \<le> sint (count ! (nat (sint num_workers) - 1)) \<and>
        sint (count ! (nat (sint num_workers) - 1)) - sint (count ! i) \<le> sint num_workers - 1)"
proof -
  let ?E = "sint total_elements" and ?N = "sint num_workers"
  let ?Q = "?E div ?N" and ?m = "nat ?N - 1"
  from split_plan [OF assms] obtain count offset where
    res: "split_num_between_processes total_elements num_workers cs ds = Inr (count, offset)"
    and c: "map sint count = replicate ?m ?Q @ [?E - (?N - 1) * ?Q]"
    by blast
  have mn: "nat ?N = Suc ?m" using assms(2) by simp
  have lc: "length count = nat ?N"
    using arg_cong [OF c, of length] mn by simp
  have cnt: "sint (count ! i) = (replicate ?m ?Q @ [?E - (?N - 1) * ?Q]) ! i" if "i < nat ?N" for i
    using that lc nth_map [of i count sint] by (simp only: c)
  have "?E - (?N - 1) * ?Q = ?Q + (?E - ?N * ?Q)" by (simp add: algebra_simps)
  also have "?E - ?N * ?Q = ?E mod ?N" by (simp add: minus_mult_div_eq_mod)
  finally have rem: "?E - (?N - 1) * ?Q = ?Q + ?E mod ?N" .
  have last: "sint (count ! ?m) = ?Q + ?E mod ?N"
    using cnt [of ?m] mn rem by (simp add: nth_append)
  have md: "0 \<le> ?E mod ?N" "?E mod ?N \<le> ?N - 1"
    using assms(2) pos_mod_bound [of ?N ?E] by simp_all
  have cmp: "sint (count ! i) \<le> sint (count ! ?m) \<and> sint (count ! ?m) - sint (count ! i) \<le> ?N - 1"
    if "i < nat ?N" for i
  proof (cases "i < ?m")
    case True
    then have "sint (count ! i) = ?Q" using cnt [of i] that by (simp add: nth_append)
    with last md show ?thesis by simp
  next
    case False
    with that mn have "i = ?m" by simp
    with assms(2) show ?thesis by simp
  qed
  show ?thesis using res lc last cmp by blast
qed

theorem last_worker_share_witness:
  "\<exists>count offset.
     split_num_between_processes 11 4 [0, 0, 0, 0] [0, 0, 0, 0] = Inr (count, offset) \<and>
     length count = 4 \<and>
     sint (count ! 3) = 2 + 3 \<and>
     (\<forall>i < 4. sint (count ! i) \<le> sint (count ! 3) \<and> sint (count ! 3) - sint (count ! i) \<le> 3)"
  using last_worker_share [of 11 4 "[0, 0, 0, 0]" "[0, 0, 0, 0]"] by simp

text \<open>
  C10: the partitioner is deterministic.  Its only inputs besides \<open>total_elements\<close>
  and \<open>num_workers\<close> are the two arrays each process allocates with \<open>malloc\<close>,
  whose contents differ from process to process: two calls with the same
  \<open>total_elements\<close> and \<open>num_workers \<ge> 1\<close> return the same count and displacement
  arrays whatever those contents are, so all processes hold the same plan.
\<close>

theorem partitioner_deterministic:
  assumes "1 \<le> sint num_workers"
    and "length cs = nat (sint num_workers)" "length ds = nat (sint num_workers)"
    and "length cs' = nat (sint num_workers)" "length ds' = nat (sint num_workers)"
  shows "\<exists>plan.
     split_num_between_processes total_elements num_workers cs ds = Inr plan \<and>
     split_num_between_processes total_elements num_workers cs' ds' = Inr plan"
proof -
  have cd: "c_div total_elements num_workers
      = Inr (word_of_int (sint total_elements sdiv sint num_workers))"
    using assms(1) by (rule c_div_defined)
  show ?thesis
    using split_words [OF cd assms(1) assms(2,3) refl]
      split_words [OF cd assms(1) assms(4,5) refl]
    by simp
qed

theorem partitioner_deterministic_witness:
  "\<exists>plan.
     split_num_between_processes 10 3 [7, 7, 7] [9, 9, 9] = Inr plan \<and>
     split_num_between_processes 10 3 [1, 2, 3] [-4, 5, 6] = Inr plan"
  using partitioner_deterministic [of 3 "[7, 7, 7]" "[9, 9, 9]" "[1, 2, 3]" "[-4, 5, 6]" 10]
  by simp


section \<open>Properties of the distributor\<close>

lemma scatterv_slices:
  assumes "length counts = length displs"
    and "\<forall>i < length counts. 0 \<le> sint (displs ! i) \<and> 0 \<le> sint (counts ! i)
           \<and> nat (sint (displs ! i)) + nat (sint (counts ! i)) \<le> length xs"
  shows "MPI_Scatterv xs counts displs =
     Inr (map (\<lambda>i. take (nat (sint (counts ! i))) (drop (nat (sint (displs ! i))) xs))
            [0..<length counts])"
  using assms
proof (induction xs counts displs rule: MPI_Scatterv.induct)
  case (1 sendbuf c sendcounts d displs)
  have hd: "local_slice sendbuf d c = Inr (take (nat (sint c)) (drop (nat (sint d)) sendbuf))"
    using "1.prems"(2) by (auto simp: local_slice_def)
  have tl: "MPI_Scatterv sendbuf sendcounts displs =
     Inr (map (\<lambda>i. take (nat (sint (sendcounts ! i))) (drop (nat (sint (displs ! i))) sendbuf))
            [0..<length sendcounts])"
  proof (rule "1.IH" [OF hd])
    show "length sendcounts = length displs" using "1.prems"(1) by simp
    show "\<forall>i<length sendcounts. 0 \<le> sint (displs ! i) \<and> 0 \<le> sint (sendcounts ! i) \<and>
       nat (sint (displs ! i)) + nat (sint (sendcounts ! i)) \<le> length sendbuf"
      using "1.prems"(2) by auto
  qed
  have "[0..<length (c # sendcounts)] = 0 # map Suc [0..<length sendcounts]"
    by (simp add: upt_conv_Cons map_Suc_upt del: upt_Suc)
  then show ?case by (simp add: hd tl comp_def del: upt_Suc)
qed simp_all

lemma concat_blocks: "concat (map (\<lambda>i. take q (drop (i * q) xs)) [0..<m]) = take (m * q) xs"
proof (induction m)
  case 0
  show ?case by simp
next
  case (Suc m)
  have "take (Suc m * q) xs = take (m * q) xs @ take q (drop (m * q) xs)"
    using take_add [of "m * q" q xs] by (simp add: add.commute)
  with Suc show ?case by simp
qed


text \<open>The plan and the slices it cuts, for every array and every valid call.\<close>

lemma scatter_plan:
  assumes "0 \<le> sint total_elements" "1 \<le> sint num_workers"
    and "length cs = nat (sint num_workers)" "length ds = nat (sint num_workers)"
    and "length global_array = nat (sint total_elements)"
  shows "\<exists>count offset slices.
     split_num_between_processes total_elements num_workers cs ds = Inr (count, offset) \<and>
     MPI_Scatterv global_array count offset = Inr slices \<and>
     length slices = nat (sint num_workers) \<and>
     (\<forall>i < nat (sint num_workers).
        slices ! i = take (nat (sint (count ! i))) (drop (nat (sint (offset ! i))) global_array)) \<and>
     concat slices = global_array \<and>
     length count = nat (sint num_workers) \<and>
     (\<forall>i < nat (sint num_workers).
        0 \<le> sint (count ! i) \<and>
        nat (sint (offset ! i)) + nat (sint (count ! i)) \<le> length global_array) \<and>
     (\<forall>i < nat (sint num_workers).
        sint total_elements div sint num_workers \<le> sint (count ! i)) \<and>
     sum_list (map sint count) = sint total_elements"
proof -
  let ?E = "sint total_elements" and ?N = "sint num_workers"
  let ?Q = "?E div ?N"
  let ?xs = global_array
  define m where "m = nat ?N - 1"
  have mn: "nat ?N = Suc m" "?N - 1 = int m" using assms(2) by (simp_all add: m_def)
  from split_plan [OF assms(1-4)] obtain count offset where
    res: "split_num_between_processes total_elements num_workers cs ds = Inr (count, offset)"
    and c: "map sint count = replicate m ?Q @ [?E - int m * ?Q]"
    and d: "map sint offset = map (\<lambda>j. int j * ?Q) [0..<Suc m]"
    unfolding mn diff_Suc_1 by blast
  have lc: "length count = Suc m"
    using arg_cong [OF c, of length] by simp
  have ld: "length offset = Suc m"
    using arg_cong [OF d, of length] by simp
  have "0 \<le> ?Q" using assms(1,2) by (simp add: pos_imp_zdiv_nonneg_iff)
  then obtain q where q: "?Q = int q" using nonneg_int_cases by blast
  have E: "?E = int (length ?xs)" using assms(1,5) by simp
  have "int m * ?Q \<le> ?E"
    using quotient_bounds(2) [of ?E ?N "int m"] assms(1,2) mn(2) by simp
  then have "int (m * q) \<le> int (length ?xs)" by (simp add: q [symmetric] E [symmetric])
  then have fit: "m * q \<le> length ?xs" by (simp only: of_nat_le_iff)
  have cnt: "sint (count ! i) = (replicate m ?Q @ [?E - int m * ?Q]) ! i" if "i < Suc m" for i
    using that lc nth_map [of i count sint] by (simp only: c)
  have off: "0 \<le> sint (offset ! i) \<and> nat (sint (offset ! i)) = i * q" if "i < Suc m" for i
  proof -
    have "sint (offset ! i) = map sint offset ! i" using that ld by simp
    also have "\<dots> = int i * ?Q" unfolding d using that by (simp del: upt_Suc)
    finally have "sint (offset ! i) = int (i * q)" by (simp add: q)
    then show ?thesis by (simp del: of_nat_mult)
  qed
  have first: "0 \<le> sint (count ! i) \<and> nat (sint (count ! i)) = q" if "i < m" for i
    using that cnt [of i] q by (simp add: nth_append)
  have last: "0 \<le> sint (count ! m) \<and> nat (sint (count ! m)) = length ?xs - m * q"
  proof -
    have "sint (count ! m) = ?E - int m * ?Q"
      using cnt [of m] by (simp add: nth_append)
    also have "\<dots> = int (length ?xs) - int (m * q)" by (simp add: q [symmetric] E [symmetric])
    also have "\<dots> = int (length ?xs - m * q)" using fit by (simp only: of_nat_diff)
    finally show ?thesis by (simp del: of_nat_mult of_nat_diff)
  qed
  have pre: "0 \<le> sint (offset ! i) \<and> 0 \<le> sint (count ! i)
           \<and> nat (sint (offset ! i)) + nat (sint (count ! i)) \<le> length ?xs"
    if "i < length count" for i
  proof (cases "i < m")
    case True
    then have "Suc i \<le> m" by simp
    then have "Suc i * q \<le> m * q" by (rule mult_le_mono1)
    with fit have "i * q + q \<le> length ?xs" by simp
    then show ?thesis using off [of i] first [of i] True by simp
  next
    case False
    with that lc have "i = m" by simp
    then show ?thesis using off [of m] last fit by simp
  qed
  let ?slice = "\<lambda>i. take (nat (sint (count ! i))) (drop (nat (sint (offset ! i))) ?xs)"
  have sc: "MPI_Scatterv ?xs count offset = Inr (map ?slice [0..<length count])"
    using lc ld pre by (intro scatterv_slices) simp_all
  have blocks: "map ?slice [0..<m] = map (\<lambda>i. take q (drop (i * q) ?xs)) [0..<m]"
    using first off by simp
  have "concat (map ?slice [0..<length count]) = concat (map ?slice [0..<m]) @ ?slice m"
    by (simp add: lc)
  also have "\<dots> = take (m * q) ?xs @ drop (m * q) ?xs"
    using off [of m] last by (simp add: blocks concat_blocks)
  finally have cc: "concat (map ?slice [0..<length count]) = ?xs" by simp
  have nth: "\<forall>i < nat ?N. map ?slice [0..<length count] ! i = ?slice i"
    unfolding mn lc by (simp del: upt_Suc)
  have len: "length (map ?slice [0..<length count]) = nat ?N"
    unfolding mn lc by simp
  have lcN: "length count = nat ?N" using lc mn(1) by simp
  have preN: "\<forall>i < nat ?N. 0 \<le> sint (count ! i) \<and>
      nat (sint (offset ! i)) + nat (sint (count ! i)) \<le> length ?xs"
    using pre lcN by simp
  have nq: "?N * ?Q \<le> ?E"
    using quotient_bounds(2) [of ?E ?N ?N] assms(1,2) by simp
  have lower: "?Q \<le> sint (count ! i)" if "i < nat ?N" for i
  proof (cases "i < m")
    case True
    then show ?thesis using cnt [of i] by (simp add: nth_append)
  next
    case False
    with that mn(1) have "i = m" by simp
    moreover have "?Q \<le> ?E - int m * ?Q"
      using nq by (simp add: mn(2) [symmetric] algebra_simps)
    ultimately show ?thesis using cnt [of m] by (simp add: nth_append)
  qed
  have total: "sum_list (map sint count) = ?E"
    unfolding c by (simp add: sum_list_replicate)
  from res sc len nth cc lcN preN lower total show ?thesis by blast
qed

text \<open>
  C2: for every Global Array of \<open>total_elements\<close> values and the plan the
  partitioner returns for \<open>total_elements \<ge> 0\<close> and \<open>num_workers \<ge> 1\<close>, the
  Local Slices (slice \<open>i\<close> is the \<open>count[i]\<close> elements starting at \<open>offset[i]\<close>)
  concatenated in rank order are the Global Array again, element for element.
\<close>

theorem scatter_round_trip:
  assumes "0 \<le> sint total_elements" "1 \<le> sint num_workers"
    and "length cs = nat (sint num_workers)" "length ds = nat (sint num_workers)"
    and "length global_array = nat (sint total_elements)"
  shows "\<exists>count offset slices.
     split_num_between_processes total_elements num_workers cs ds = Inr (count, offset) \<and>
     MPI_Scatterv global_array count offset = Inr slices \<and>
     length slices = nat (sint num_workers) \<and>
     (\<forall>i < nat (sint num_workers).
        slices ! i = take (nat (sint (count ! i))) (drop (nat (sint (offset ! i))) global_array)) \<and>
     concat slices = global_array"
  using scatter_plan [OF assms] by blast

theorem scatter_round_trip_witness:
  "\<exists>count offset slices.
     split_num_between_processes 10 3 [7, 7, 7] [9, 9, 9] = Inr (count, offset) \<and>
     MPI_Scatterv ''abcdefghij'' count offset = Inr slices \<and>
     length slices = 3 \<and>
     (\<forall>i < 3. slices ! i = take (nat (sint (count ! i))) (drop (nat (sint (offset ! i))) ''abcdefghij'')) \<and>
     concat slices = ''abcdefghij''"
  using scatter_round_trip [of 10 3 "[7, 7, 7]" "[9, 9, 9]" "''abcdefghij''"] by simp


section \<open>Properties of the averagers\<close>

lemma load_ok: "0 \<le> sint i \<Longrightarrow> nat (sint i) < length xs \<Longrightarrow> load xs i = Inr (xs ! nat (sint i))"
  by (simp add: load_def)

lemma avg_loop_run:
  assumes "0 \<le> sint i" "sint i \<le> sint n" "nat (sint n) \<le> length xs"
  shows "avg_loop A xs n i s = Inr (foldl (fadd A) s (drop (nat (sint i)) (take (nat (sint n)) xs)))"
  using assms
proof (induction "nat (sint n) - nat (sint i)" arbitrary: i s)
  case 0
  then have "\<not> i <s n" "nat (sint n) \<le> nat (sint i)"
    by (simp_all add: word_sless_alt)
  then show ?case by (simp add: avg_loop.simps [of A xs n i])
next
  case (Suc d)
  let ?k = "nat (sint i)" and ?N = "nat (sint n)"
  from Suc.hyps(2) Suc.prems have lt: "i <s n" and kn: "?k < ?N"
    by (simp_all add: word_sless_alt) arith
  have s1: "sint (i + 1) = sint i + 1" using lt by (rule sint_succ_sless)
  have "?k < length xs" using kn Suc.prems(3) by (rule less_le_trans)
  then have ld: "load xs i = Inr (xs ! ?k)"
    using Suc.prems(1) by (simp add: load_def)
  have "avg_loop A xs n i s = avg_loop A xs n (i + 1) (fadd A s (xs ! ?k))"
    using lt ld by (simp add: avg_loop.simps [of A xs n i])
  also have "\<dots> = Inr (foldl (fadd A) (fadd A s (xs ! ?k)) (drop (nat (sint (i + 1))) (take ?N xs)))"
  proof (rule Suc.hyps(1))
    show "d = ?N - nat (sint (i + 1))" using Suc.hyps(2) s1 Suc.prems(1) by simp
    show "0 \<le> sint (i + 1)" using s1 Suc.prems by simp
    show "sint (i + 1) \<le> sint n" using s1 lt by (simp add: word_sless_alt)
    show "?N \<le> length xs" by (rule Suc.prems(3))
  qed
  also have "drop ?k (take ?N xs) = xs ! ?k # drop (nat (sint (i + 1))) (take ?N xs)"
  proof -
    have "nat (sint (i + 1)) = Suc ?k" using s1 Suc.prems(1) by simp
    moreover have "?k < length (take ?N xs)" using kn Suc.prems(3) by simp
    ultimately show ?thesis
      using Cons_nth_drop_Suc [of ?k "take ?N xs"] kn by simp
  qed
  then have "foldl (fadd A) (fadd A s (xs ! ?k)) (drop (nat (sint (i + 1))) (take ?N xs))
      = foldl (fadd A) s (drop ?k (take ?N xs))"
    by simp
  finally show ?case .
qed

lemma compute_avg_eq:
  assumes "nat (sint n) \<le> length xs"
  shows "compute_avg A xs n = Inr (fdiv A (fsum A (take (nat (sint n)) xs)) (of_int32 A n))"
proof (cases "0 \<le> sint n")
  case True
  then show ?thesis
    using avg_loop_run [of 0 n xs A "fzero A"] assms
    by (simp add: compute_avg_def fsum_def)
next
  case False
  then have "\<not> 0 <s n" by (simp add: word_sless_alt)
  then show ?thesis using False
    by (simp add: compute_avg_def fsum_def avg_loop.simps [of A xs n 0])
qed


lemma weighted_loop_run:
  assumes "0 \<le> sint i" "sint i \<le> sint n"
    and "nat (sint n) \<le> length xs" "nat (sint n) \<le> length ws"
  shows "weighted_loop A xs ws n i s sw =
     Inr (foldl (fadd A) s
            (map (\<lambda>(w, v). fmul A (of_int32 A w) v)
               (drop (nat (sint i)) (take (nat (sint n)) (zip ws xs)))),
          foldl (fadd A) sw (map (of_int32 A) (drop (nat (sint i)) (take (nat (sint n)) ws))))"
  using assms
proof (induction "nat (sint n) - nat (sint i)" arbitrary: i s sw)
  case 0
  then have "\<not> i <s n" "nat (sint n) \<le> nat (sint i)"
    by (simp_all add: word_sless_alt)
  then show ?case by (simp add: weighted_loop.simps [of A xs ws n i])
next
  case (Suc d)
  let ?k = "nat (sint i)" and ?N = "nat (sint n)"
  let ?f = "\<lambda>(w, v). fmul A (of_int32 A w) v"
  from Suc.hyps(2) Suc.prems have lt: "i <s n" and kn: "?k < ?N"
    by (simp_all add: word_sless_alt) arith
  have s1: "sint (i + 1) = sint i + 1" using lt by (rule sint_succ_sless)
  have k1: "nat (sint (i + 1)) = Suc ?k" using s1 Suc.prems(1) by simp
  have "?k < length xs" "?k < length ws"
    using kn Suc.prems(3,4) by linarith+
  then have ld: "load xs i = Inr (xs ! ?k)" "load ws i = Inr (ws ! ?k)"
    using Suc.prems(1) by (simp_all add: load_def)
  have "weighted_loop A xs ws n i s sw =
      weighted_loop A xs ws n (i + 1) (fadd A s (fmul A (of_int32 A (ws ! ?k)) (xs ! ?k)))
        (fadd A sw (of_int32 A (ws ! ?k)))"
    using lt ld by (simp add: weighted_loop.simps [of A xs ws n i])
  also have "\<dots> =
     Inr (foldl (fadd A) (fadd A s (fmul A (of_int32 A (ws ! ?k)) (xs ! ?k)))
            (map ?f (drop (Suc ?k) (take ?N (zip ws xs)))),
          foldl (fadd A) (fadd A sw (of_int32 A (ws ! ?k)))
            (map (of_int32 A) (drop (Suc ?k) (take ?N ws))))"
    unfolding k1 [symmetric]
  proof (rule Suc.hyps(1))
    show "d = ?N - nat (sint (i + 1))" using Suc.hyps(2) k1 by simp
    show "0 \<le> sint (i + 1)" using s1 Suc.prems by simp
    show "sint (i + 1) \<le> sint n" using s1 lt by (simp add: word_sless_alt)
  qed (rule Suc.prems)+
  also have "\<dots> =
     Inr (foldl (fadd A) s (map ?f (drop ?k (take ?N (zip ws xs)))),
          foldl (fadd A) sw (map (of_int32 A) (drop ?k (take ?N ws))))"
  proof -
    have a: "drop ?k (take ?N ws) = ws ! ?k # drop (Suc ?k) (take ?N ws)"
      using Cons_nth_drop_Suc [of ?k "take ?N ws"] kn Suc.prems(4) by simp
    have b: "drop ?k (take ?N (zip ws xs)) = (ws ! ?k, xs ! ?k) # drop (Suc ?k) (take ?N (zip ws xs))"
      using Cons_nth_drop_Suc [of ?k "take ?N (zip ws xs)"] kn Suc.prems(3,4) by simp
    show ?thesis by (simp add: a b)
  qed
  finally show ?case .
qed

lemma compute_weighted_avg_eq:
  assumes "nat (sint num_elements) \<le> length array"
    and "nat (sint num_elements) \<le> length weights_array"
  shows "compute_weighted_avg A array weights_array num_elements =
     Inr (spec_weighted_mean A (take (nat (sint num_elements)) array)
            (take (nat (sint num_elements)) weights_array))"
proof (cases "0 \<le> sint num_elements")
  case True
  then show ?thesis
    using weighted_loop_run [of 0 num_elements array weights_array A "fzero A" "fzero A"] assms
    by (simp add: compute_weighted_avg_def spec_weighted_mean_def fsum_def take_zip)
next
  case False
  then have "\<not> 0 <s num_elements" by (simp add: word_sless_alt)
  then show ?thesis using False
    by (simp add: compute_weighted_avg_def spec_weighted_mean_def fsum_def
        weighted_loop.simps [of A array weights_array num_elements 0])
qed

text \<open>
  C5: for every values array, every weights array and every length \<open>num_elements\<close>
  within both arrays, \<open>compute_weighted_avg\<close> returns the sum over \<open>i\<close> of
  \<open>weight[i] * value[i]\<close> divided by the sum over \<open>i\<close> of \<open>weight[i]\<close>, in whichever
  arithmetic the operations are taken.
\<close>

theorem weighted_avg_formula:
  assumes "nat (sint num_elements) \<le> length array"
    and "nat (sint num_elements) \<le> length weights_array"
  shows "compute_weighted_avg A array weights_array num_elements =
     Inr (spec_weighted_mean A (take (nat (sint num_elements)) array)
            (take (nat (sint num_elements)) weights_array))"
  using assms by (rule compute_weighted_avg_eq)

theorem weighted_avg_formula_witness:
  "compute_weighted_avg exact [1 / 2, 3 / 4, 1] [2, 1, 1] 3 =
     Inr ((2 * (1 / 2) + 1 * (3 / 4) + 1 * 1) / (2 + 1 + 1))"
  using weighted_avg_formula [of 3 "[1 / 2, 3 / 4, 1]" "[2, 1, 1]" exact]
  by (simp add: spec_weighted_mean_def fsum_def exact_def)


text \<open>
  C6, as the code has it: whenever \<open>0 \<le> total_elements < num_workers\<close>, worker 0
  receives \<open>count = 0\<close>, and \<open>compute_avg\<close> on its zero-length slice signals no error:
  it returns the quotient of \<open>0.f\<close> by the \<open>float\<close> 0, which is a NaN in IEEE single
  precision.
\<close>

theorem empty_slice_average:
  assumes "0 \<le> sint total_elements" "sint total_elements < sint num_workers"
    and "length cs = nat (sint num_workers)" "length ds = nat (sint num_workers)"
  shows "\<exists>count offset.
     split_num_between_processes total_elements num_workers cs ds = Inr (count, offset) \<and>
     sint (count ! 0) = 0 \<and>
     compute_avg A (take (nat (sint (count ! 0))) (drop (nat (sint (offset ! 0))) global_array))
         (count ! 0)
       = Inr (fdiv A (fzero A) (of_int32 A 0)) \<and>
     fdiv ieee_single (fzero ieee_single) (of_int32 ieee_single 0) = NaN"
proof -
  let ?E = "sint total_elements" and ?N = "sint num_workers"
  have n1: "1 \<le> ?N" using assms(1,2) by simp
  from split_plan [OF assms(1) n1 assms(3,4)] obtain count offset where
    res: "split_num_between_processes total_elements num_workers cs ds = Inr (count, offset)"
    and c: "map sint count = replicate (nat ?N - 1) (?E div ?N) @ [?E - (?N - 1) * (?E div ?N)]"
    by blast
  have q: "?E div ?N = 0" using assms(1,2) by (simp add: div_pos_pos_trivial)
  have lc: "0 < length count" using arg_cong [OF c, of length] by simp
  have "sint (count ! 0) = map sint count ! 0" using lc by simp
  also have "\<dots> = 0"
  proof (cases "nat ?N - 1")
    case 0
    then have "?N = 1" using n1 by simp
    with assms(1,2) have "?E = 0" by simp
    with 0 show ?thesis unfolding c by simp
  next
    case (Suc k)
    then show ?thesis unfolding c q by simp
  qed
  finally have z: "sint (count ! 0) = 0" .
  then have w: "count ! 0 = 0" by (simp add: signed_eq_0_iff)
  have avg: "compute_avg A (take (nat (sint (count ! 0))) (drop (nat (sint (offset ! 0))) global_array))
         (count ! 0) = Inr (fdiv A (fzero A) (of_int32 A 0))"
    unfolding w by (simp add: compute_avg_def avg_loop.simps [of A "[]" 0 0])
  have nan: "fdiv ieee_single (fzero ieee_single) (of_int32 ieee_single 0) = NaN"
    by (simp add: ieee_single_def float_of_int32_def fl_def round32_def)
  from res z avg nan show ?thesis by blast
qed

theorem empty_slice_average_witness:
  "\<exists>count offset.
     split_num_between_processes 2 4 [0, 0, 0, 0] [0, 0, 0, 0] = Inr (count, offset) \<and>
     sint (count ! 0) = 0 \<and>
     compute_avg ieee_single
         (take (nat (sint (count ! 0))) (drop (nat (sint (offset ! 0))) [Fin False 1, Fin False 1]))
         (count ! 0)
       = Inr (fdiv ieee_single (fzero ieee_single) (of_int32 ieee_single 0)) \<and>
     fdiv ieee_single (fzero ieee_single) (of_int32 ieee_single 0) = NaN"
  using empty_slice_average [of 2 4 "[0, 0, 0, 0]" "[0, 0, 0, 0]" ieee_single
      "[Fin False 1, Fin False 1]"]
  by simp

text \<open>
  The claim as stated fails for 2 elements on 4 workers: the first three workers
  receive no element, and \<open>compute_avg\<close> on an empty slice returns a NaN, not an error.
\<close>

theorem empty_slice_no_error:
  "split_num_between_processes 2 4 [0, 0, 0, 0] [0, 0, 0, 0] = Inr ([0, 0, 0, 2], [0, 0, 0, 0])
   \<and> compute_avg ieee_single [] 0 = Inr NaN"
  by code_simp


section \<open>The averagers in exact and in single-precision arithmetic\<close>

lemma foldl_plus_rat: "foldl (+) a xs = a + sum_list (xs :: rat list)"
  by (induction xs arbitrary: a) (simp_all add: add.assoc)

lemma fsum_exact: "fsum exact xs = sum_list xs"
  by (simp add: fsum_def exact_def foldl_plus_rat)

lemma compute_avg_exact:
  assumes "0 \<le> sint c" "length s = nat (sint c)"
  shows "compute_avg exact s c = Inr (sum_list s / of_int (sint c))"
proof -
  have "compute_avg exact s c = Inr (fdiv exact (fsum exact (take (nat (sint c)) s)) (of_int32 exact c))"
    using assms by (intro compute_avg_eq) simp
  then show ?thesis using assms by (simp add: fsum_exact) (simp add: exact_def)
qed

lemma exact_sub_avgs:
  assumes "length slices = length counts"
    and "\<forall>(s, c) \<in> set (zip slices counts). 0 < sint c \<and> length s = nat (sint c)"
  shows "all_ranks (map2 (compute_avg exact) slices counts)
           = Inr (map2 (\<lambda>s c. sum_list s / of_int (sint c)) slices counts)"
    and "sum_list (map2 (\<lambda>w v. of_int (sint w) * v) counts
            (map2 (\<lambda>s c. sum_list s / of_int (sint c)) slices counts))
           = sum_list (concat slices)"
  using assms
proof (induction slices counts rule: list_induct2)
  case Nil
  {
    case 1 show ?case by simp
  next
    case 2 show ?case by simp
  }
next
  case (Cons s slices c counts)
  {
    case 1
    then have "compute_avg exact s c = Inr (sum_list s / of_int (sint c))"
      by (intro compute_avg_exact) simp_all
    moreover have "all_ranks (map2 (compute_avg exact) slices counts)
           = Inr (map2 (\<lambda>s c. sum_list s / of_int (sint c)) slices counts)"
      using 1 by (intro Cons.IH(1)) simp_all
    ultimately show ?case by simp
  next
    case 2
    then have "0 < sint c" by simp
    then have "(of_int (sint c) :: rat) \<noteq> 0" by (auto simp: signed_eq_0_iff)
    then have "of_int (sint c) * (sum_list s / of_int (sint c)) = sum_list s"
      by simp
    moreover have "sum_list (map2 (\<lambda>w v. of_int (sint w) * v) counts
            (map2 (\<lambda>s c. sum_list s / of_int (sint c)) slices counts))
           = sum_list (concat slices)"
      using 2 by (intro Cons.IH(2)) simp_all
    ultimately show ?case by simp
  }
qed

lemma weighted_mean_exact:
  "spec_weighted_mean exact values weights =
     sum_list (map2 (\<lambda>w v. of_int (sint w) * v) weights values)
       / of_int (sum_list (map sint weights))"
proof -
  have "sum_list (map (\<lambda>w. of_int (sint w) :: rat) weights) = of_int (sum_list (map sint weights))"
    by (induction weights) simp_all
  then show ?thesis
    by (simp add: spec_weighted_mean_def fsum_exact) (simp add: exact_def)
qed

text \<open>
  C3, as the code has it: for every input array and every plan of the partitioner in
  which no worker has a zero count (\<open>1 \<le> num_workers \<le> total_elements\<close>), the
  weighted average of the per-worker means, with the counts as weights, is the direct
  mean of the whole array when the operations are exact.  In single precision each
  operation rounds, and the two results agree only as far as the rounding allows.
\<close>

theorem weighted_avg_exact:
  assumes "1 \<le> sint num_workers" "sint num_workers \<le> sint total_elements"
    and "length cs = nat (sint num_workers)" "length ds = nat (sint num_workers)"
    and "length global_array = nat (sint total_elements)"
  shows "\<exists>count offset slices sub_avgs avg.
     split_num_between_processes total_elements num_workers cs ds = Inr (count, offset) \<and>
     (\<forall>i < nat (sint num_workers). 0 < sint (count ! i)) \<and>
     MPI_Scatterv global_array count offset = Inr slices \<and>
     all_ranks (map2 (compute_avg exact) slices count) = Inr sub_avgs \<and>
     compute_weighted_avg exact sub_avgs count num_workers = Inr avg \<and>
     compute_avg exact global_array total_elements = Inr avg"
proof -
  let ?E = "sint total_elements" and ?N = "sint num_workers"
  have e0: "0 \<le> ?E" using assms(1,2) by simp
  from scatter_plan [OF e0 assms(1,3,4,5)] obtain count offset slices where
    res: "split_num_between_processes total_elements num_workers cs ds = Inr (count, offset)"
    and sc: "MPI_Scatterv global_array count offset = Inr slices"
    and ls: "length slices = nat ?N"
    and sl: "\<forall>i < nat ?N. slices ! i
        = take (nat (sint (count ! i))) (drop (nat (sint (offset ! i))) global_array)"
    and cc: "concat slices = global_array"
    and lc: "length count = nat ?N"
    and pre: "\<forall>i < nat ?N. 0 \<le> sint (count ! i) \<and>
        nat (sint (offset ! i)) + nat (sint (count ! i)) \<le> length global_array"
    and lower: "\<forall>i < nat ?N. ?E div ?N \<le> sint (count ! i)"
    and total: "sum_list (map sint count) = ?E"
    by blast
  have "1 \<le> ?E div ?N"
    using zdiv_mono1 [of ?N ?E ?N] assms(1,2) by simp
  then have pos: "\<forall>i < nat ?N. 0 < sint (count ! i)"
    using lower by fastforce
  have len: "length (slices ! i) = nat (sint (count ! i))" if "i < nat ?N" for i
  proof -
    from that pre have "nat (sint (offset ! i)) + nat (sint (count ! i)) \<le> length global_array"
      by blast
    moreover from that sl have "slices ! i
        = take (nat (sint (count ! i))) (drop (nat (sint (offset ! i))) global_array)"
      by blast
    ultimately show ?thesis by simp
  qed
  have zipped: "\<forall>(s, c) \<in> set (zip slices count). 0 < sint c \<and> length s = nat (sint c)"
    using pos len ls lc by (auto simp: set_zip)
  let ?avgs = "map2 (\<lambda>s c. sum_list s / of_int (sint c)) slices count"
  have sub: "all_ranks (map2 (compute_avg exact) slices count) = Inr ?avgs"
    using ls lc zipped by (intro exact_sub_avgs(1)) simp_all
  have num: "sum_list (map2 (\<lambda>w v. of_int (sint w) * v) count ?avgs) = sum_list global_array"
    using exact_sub_avgs(2) [of slices count] ls lc zipped cc by simp
  have la: "length ?avgs = nat ?N" using ls lc by simp
  have "compute_weighted_avg exact ?avgs count num_workers
      = Inr (spec_weighted_mean exact (take (nat ?N) ?avgs) (take (nat ?N) count))"
    using la lc by (intro compute_weighted_avg_eq) simp_all
  also have "\<dots> = Inr (sum_list global_array / of_int ?E)"
    using la lc num total by (simp add: weighted_mean_exact)
  finally have w: "compute_weighted_avg exact ?avgs count num_workers
      = Inr (sum_list global_array / of_int ?E)" .
  have d: "compute_avg exact global_array total_elements = Inr (sum_list global_array / of_int ?E)"
    using e0 assms(5) by (intro compute_avg_exact) simp_all
  from res pos sc sub w d show ?thesis by blast
qed

theorem weighted_avg_exact_witness:
  "\<exists>count offset slices sub_avgs avg.
     split_num_between_processes 4 2 [0, 0] [0, 0] = Inr (count, offset) \<and>
     (\<forall>i < 2. 0 < sint (count ! i)) \<and>
     MPI_Scatterv [1267650600228229401496703205376, 1, - 1267650600228229401496703205376, 1]
        count offset = Inr slices \<and>
     all_ranks (map2 (compute_avg exact) slices count) = Inr sub_avgs \<and>
     compute_weighted_avg exact sub_avgs count 2 = Inr avg \<and>
     compute_avg exact
        [1267650600228229401496703205376, 1, - 1267650600228229401496703205376, 1] 4 = Inr avg"
  using weighted_avg_exact [of 2 4 "[0, 0]" "[0, 0]"
      "[1267650600228229401496703205376, 1, - 1267650600228229401496703205376, 1]"]
  by simp

text \<open>
  The claim as stated fails in single precision: for the array
  \<open>2^100, 1, -2^100, 1\<close> on 2 workers the per-worker means are \<open>2^99\<close> and
  \<open>-2^99\<close>, the weighted average is 0 and the direct mean is \<open>1/4\<close>, far more
  than \<open>1e-5\<close> apart in relative terms.
\<close>

theorem weighted_avg_cancellation:
  "split_num_between_processes 4 2 [0, 0] [0, 0] = Inr ([2, 2], [0, 2]) \<and>
   MPI_Scatterv
     [Fin False 1267650600228229401496703205376, Fin False 1,
      Fin True 1267650600228229401496703205376, Fin False 1] [2, 2] [0, 2]
     = Inr [[Fin False 1267650600228229401496703205376, Fin False 1],
            [Fin True 1267650600228229401496703205376, Fin False 1]] \<and>
   all_ranks (map2 (compute_avg ieee_single)
       [[Fin False 1267650600228229401496703205376, Fin False 1],
        [Fin True 1267650600228229401496703205376, Fin False 1]] [2, 2])
     = Inr [Fin False 633825300114114700748351602688,
            Fin True 633825300114114700748351602688] \<and>
   compute_weighted_avg ieee_single
       [Fin False 633825300114114700748351602688,
        Fin True 633825300114114700748351602688] [2, 2] 2
     = Inr (Fin False 0) \<and>
   compute_avg ieee_single
       [Fin False 1267650600228229401496703205376, Fin False 1,
        Fin True 1267650600228229401496703205376, Fin False 1] 4
     = Inr (Fin False (1 / 4)) \<and>
   \<not> \<bar>0 - 1 / 4\<bar> \<le> (1 / 100000) * \<bar>1 / 4 :: rat\<bar>"
  by code_simp

section \<open>Rounding to single precision\<close>

text \<open>
  Facts about the rounding of \<open>round32\<close>: the exponent \<open>ilog2\<close> finds is the right
  one, \<open>round_even\<close> picks a nearest integer, \<open>rnd\<close> returns a nearest representable
  magnitude and leaves a representable magnitude as it is.
\<close>

lemma pow2_powi: "pow2 e = 2 powi e"
proof (cases "0 \<le> e")
  case True
  then show ?thesis by (simp add: pow2_def power_int_def)
next
  case False
  have "inverse (2::rat) ^ nat (- e) = 1 / 2 ^ nat (- e)"
    by (simp add: inverse_eq_divide power_one_over)
  with False show ?thesis by (simp add: pow2_def power_int_def)
qed

lemma pow2_pos [simp]: "0 < pow2 e"
  by (simp add: pow2_powi)

lemma pow2_add: "pow2 (a + b) = pow2 a * pow2 b"
  by (simp add: pow2_powi power_int_add)

lemma pow2_less: "a < b \<Longrightarrow> pow2 a < pow2 b"
  by (simp add: pow2_powi power_int_strict_increasing)

lemma pow2_le: "a \<le> b \<Longrightarrow> pow2 a \<le> pow2 b"
  by (simp add: pow2_powi power_int_increasing)

lemma pow2_less_cancel: "pow2 a < pow2 b \<Longrightarrow> a < b"
  using pow2_le [of b a] by (cases "a < b") simp_all

lemma pow2_nat: "pow2 (int n) = 2 ^ n"
  by (simp add: pow2_def)

lemma pow2_0 [simp]: "pow2 0 = 1"
  by (simp add: pow2_def)

lemma pow2_suc: "pow2 (e + 1) = 2 * pow2 e"
  using pow2_add [of e 1] by (simp add: pow2_def)

lemma ilog2_bounds:
  assumes "0 < r"
  shows "pow2 (ilog2 r) \<le> r" and "r < pow2 (ilog2 r + 1)"
proof -
  obtain a b where ab: "quotient_of r = (a, b)" by (cases "quotient_of r")
  then have b: "0 < b" and r: "r = of_int a / of_int b"
    by (auto dest: quotient_of_denom_pos quotient_of_div)
  from assms r b have a: "0 < a" by (simp add: zero_less_divide_iff)
  let ?la = "bitlen a" and ?lb = "bitlen b"
  from a b have l1: "1 \<le> ?la" "1 \<le> ?lb" by (simp_all add: bitlen_alt_def)
  from bitlen_bounds [OF a] l1 have "(2::int) ^ nat (?la - 1) \<le> a" "a < 2 ^ nat ?la" by simp_all
  then have "(of_int (2 ^ nat (?la - 1)) :: rat) \<le> of_int a" "(of_int a :: rat) < of_int (2 ^ nat ?la)"
    by (simp_all only: of_int_le_iff of_int_less_iff)
  then have A: "pow2 (?la - 1) \<le> of_int a" "of_int a < pow2 ?la"
    using l1 by (simp_all add: pow2_def)
  from bitlen_bounds [OF b] l1 have "(2::int) ^ nat (?lb - 1) \<le> b" "b < 2 ^ nat ?lb" by simp_all
  then have "(of_int (2 ^ nat (?lb - 1)) :: rat) \<le> of_int b" "(of_int b :: rat) < of_int (2 ^ nat ?lb)"
    by (simp_all only: of_int_le_iff of_int_less_iff)
  then have B: "pow2 (?lb - 1) \<le> of_int b" "of_int b < pow2 ?lb"
    using l1 by (simp_all add: pow2_def)
  have bq: "(0::rat) < of_int b" using b by simp
  have lo: "pow2 (?la - ?lb - 1) < r"
  proof -
    have "pow2 (?la - ?lb - 1) * of_int b < pow2 (?la - ?lb - 1) * pow2 ?lb"
      using B(2) by (simp add: mult_strict_left_mono)
    also have "\<dots> = pow2 (?la - 1)" by (simp add: pow2_add [symmetric])
    also have "\<dots> \<le> of_int a" by (rule A(1))
    finally show ?thesis using bq by (simp add: r pos_less_divide_eq)
  qed
  have hi: "r < pow2 (?la - ?lb + 1)"
  proof -
    have "of_int a < pow2 ?la" by (rule A(2))
    also have "\<dots> = pow2 (?la - ?lb + 1) * pow2 (?lb - 1)" by (simp add: pow2_add [symmetric])
    also have "\<dots> \<le> pow2 (?la - ?lb + 1) * of_int b"
      using B(1) by (simp add: mult_left_mono)
    finally show ?thesis using bq by (simp add: r pos_divide_less_eq)
  qed
  show "pow2 (ilog2 r) \<le> r"
    using lo by (auto simp: ilog2_def ab Let_def)
  show "r < pow2 (ilog2 r + 1)"
    using hi by (auto simp: ilog2_def ab Let_def not_le)
qed

lemma ilog2_unique:
  assumes "pow2 e \<le> r" "r < pow2 (e + 1)"
  shows "ilog2 r = e"
proof -
  have r: "0 < r" using assms(1) pow2_pos [of e] by linarith
  from ilog2_bounds [OF r] assms
  have "pow2 (ilog2 r) < pow2 (e + 1)" "pow2 e < pow2 (ilog2 r + 1)" by linarith+
  then have "ilog2 r < e + 1" "e < ilog2 r + 1" by (auto dest: pow2_less_cancel)
  then show ?thesis by simp
qed

lemma round32_rnd:
  "round32 s r = (if r = 0 then Fin s 0 else if pow2 128 \<le> rnd r then Inf s else Fin s (rnd r))"
  by (simp add: round32_def rnd_def Let_def)

lemma round_even_err: "\<bar>of_int (round_even x) - x\<bar> \<le> 1 / 2"
proof -
  have "of_int \<lfloor>x\<rfloor> \<le> x" "x < of_int \<lfloor>x\<rfloor> + 1" by linarith+
  then show ?thesis by (auto simp: round_even_def Let_def)
qed

lemma round_even_near:
  assumes "\<bar>x - of_int k\<bar> < 1 / 2"
  shows "round_even x = k"
proof -
  have "\<bar>of_int (round_even x) - x\<bar> \<le> 1 / 2" by (rule round_even_err)
  with assms have "\<bar>(of_int (round_even x) :: rat) - of_int k\<bar> < 1" by linarith
  then have "\<bar>(of_int (round_even x - k) :: rat)\<bar> < of_int 1" by simp
  then have "\<bar>round_even x - k\<bar> < 1" by (simp only: of_int_abs [symmetric] of_int_less_iff)
  then show ?thesis by simp
qed

lemma round_even_tie:
  assumes "\<bar>x - of_int k\<bar> = 1 / 2"
  shows "round_even x = k \<longleftrightarrow> even k"
proof -
  from assms consider "x = of_int k + 1 / 2" | "x = of_int (k - 1) + 1 / 2"
    by (auto simp: abs_if split: if_splits) 
  then show ?thesis
  proof cases
    case 1
    then have "\<lfloor>x\<rfloor> = k" by (simp add: floor_unique)
    with 1 show ?thesis by (simp add: round_even_def Let_def)
  next
    case 2
    then have "\<lfloor>x\<rfloor> = k - 1" by (intro floor_unique) simp_all
    with 2 show ?thesis by (simp add: round_even_def Let_def)
  qed
qed

lemma round_even_closer:
  assumes "round_even x = k" "\<bar>y - of_int k\<bar> \<le> \<bar>x - of_int k\<bar>"
  shows "round_even y = k"
proof -
  have e: "\<bar>x - of_int k\<bar> \<le> 1 / 2" using round_even_err [of x] assms(1) by (simp add: abs_minus_commute)
  show ?thesis
  proof (cases "\<bar>y - of_int k\<bar> < 1 / 2")
    case True
    then show ?thesis by (rule round_even_near)
  next
    case False
    with e assms(2) have "\<bar>y - of_int k\<bar> = 1 / 2" "\<bar>x - of_int k\<bar> = 1 / 2" by linarith+
    with assms(1) show ?thesis by (simp add: round_even_tie)
  qed
qed

lemma round_even_nearest: "\<bar>of_int (round_even x) - x\<bar> \<le> \<bar>of_int j - x\<bar>"
proof (cases "\<bar>x - of_int j\<bar> < 1 / 2")
  case True
  then have "round_even x = j" by (rule round_even_near)
  then show ?thesis by simp
next
  case False
  with round_even_err [of x] show ?thesis by linarith
qed

lemma round_even_of_int [simp]: "round_even (of_int k) = k"
  by (rule round_even_near) simp

lemma round_even_le:
  assumes "x \<le> of_int M"
  shows "round_even x \<le> M"
proof (rule ccontr)
  assume "\<not> round_even x \<le> M"
  then have "M + 1 \<le> round_even x" by simp
  then have "(of_int (M + 1) :: rat) \<le> of_int (round_even x)" by (simp only: of_int_le_iff)
  with assms round_even_err [of x] show False by simp
qed

lemma round_even_ge:
  assumes "of_int m \<le> x"
  shows "m \<le> round_even x"
proof (rule ccontr)
  assume "\<not> m \<le> round_even x"
  then have "round_even x \<le> m - 1" by simp
  then have "(of_int (round_even x) :: rat) \<le> of_int (m - 1)" by (simp only: of_int_le_iff)
  with assms round_even_err [of x] show False by simp
qed

lemma pow2_24: "pow2 (e + 1) = 2 ^ 24 * pow2 (e - 23)"
proof -
  have eq: "e + 1 = 24 + (e - 23)" by simp
  have "pow2 (e + 1) = pow2 24 * pow2 (e - 23)" by (subst eq) (rule pow2_add)
  moreover have "pow2 24 = 2 ^ 24" by (simp add: pow2_def)
  ultimately show ?thesis by (simp only:)
qed

lemma pow2_23: "pow2 e = 2 ^ 23 * pow2 (e - 23)"
proof -
  have eq: "e = 23 + (e - 23)" by simp
  have "pow2 e = pow2 23 * pow2 (e - 23)" by (subst eq) (rule pow2_add)
  moreover have "pow2 23 = 2 ^ 23" by (simp add: pow2_def)
  ultimately show ?thesis by (simp only:)
qed

text \<open>The grid of a positive number: its unit, and the bounds of its quotient by the unit.\<close>

lemma grid_upper:
  assumes "0 < z" "e = max (ilog2 z) (- 126)"
  shows "z / pow2 (e - 23) < 2 ^ 24"
proof -
  have "z < pow2 (ilog2 z + 1)" using assms(1) by (rule ilog2_bounds)
  also have "\<dots> \<le> pow2 (e + 1)" using assms(2) by (intro pow2_le) simp
  also have "\<dots> = 2 ^ 24 * pow2 (e - 23)" by (rule pow2_24)
  finally show ?thesis by (simp add: pos_divide_less_eq)
qed

lemma grid_lower:
  assumes "0 < z" "- 126 \<le> ilog2 z" "e = max (ilog2 z) (- 126)"
  shows "2 ^ 23 \<le> z / pow2 (e - 23)"
proof -
  have e: "e = ilog2 z" using assms(2,3) by simp
  have "2 ^ 23 * pow2 (e - 23) = pow2 e" by (rule pow2_23 [symmetric])
  also have "\<dots> \<le> z" unfolding e using assms(1) by (rule ilog2_bounds)
  finally show ?thesis by (simp add: pos_le_divide_eq)
qed

lemma rnd_representable:
  assumes "0 < r"
  shows "representable (rnd r)"
proof -
  define e where "e = max (ilog2 r) (- 126)"
  define k where "k = round_even (r / pow2 (e - 23))"
  have "0 < r / pow2 (e - 23)" using assms pow2_pos by (rule divide_pos_pos)
  then have "(of_int 0 :: rat) \<le> r / pow2 (e - 23)" by simp
  then have k0: "0 \<le> k" unfolding k_def by (rule round_even_ge)
  have "r / pow2 (e - 23) \<le> of_int (2 ^ 24)"
    using grid_upper [OF assms e_def] by simp
  then have k1: "k \<le> 2 ^ 24" unfolding k_def by (rule round_even_le)
  have "rnd r = of_int k * pow2 (e - 23)"
    by (simp add: rnd_def Let_def k_def e_def)
  moreover have "- 126 \<le> e" by (simp add: e_def)
  ultimately show ?thesis using k0 k1 unfolding representable_def by blast
qed

text \<open>No representable magnitude is closer to \<open>z\<close> than \<open>rnd z\<close>.\<close>

lemma rnd_nearest:
  assumes "0 < z" "representable f"
  shows "\<bar>rnd z - z\<bar> \<le> \<bar>f - z\<bar>"
proof -
  define e where "e = max (ilog2 z) (- 126)"
  define u where "u = pow2 (e - 23)"
  define k where "k = round_even (z / u)"
  have u: "0 < u" by (simp add: u_def)
  have rz: "rnd z = of_int k * u" by (simp add: rnd_def Let_def k_def e_def u_def)
  have grid: "\<bar>rnd z - z\<bar> \<le> \<bar>of_int j * u - z\<bar>" for j
  proof -
    have "\<bar>of_int k - z / u\<bar> \<le> \<bar>of_int j - z / u\<bar>"
      unfolding k_def by (rule round_even_nearest)
    then have "\<bar>of_int k - z / u\<bar> * u \<le> \<bar>of_int j - z / u\<bar> * u"
      using u by (simp add: mult_right_mono)
    moreover have "\<bar>of_int i - z / u\<bar> * u = \<bar>of_int i * u - z\<bar>" for i
    proof -
      have "\<bar>of_int i - z / u\<bar> * u = \<bar>(of_int i - z / u) * u\<bar>"
        using u by (simp add: abs_mult)
      also have "(of_int i - z / u) * u = of_int i * u - z"
        using u by (simp add: field_simps)
      finally show ?thesis .
    qed
    ultimately show ?thesis by (simp add: rz)
  qed
  from assms(2) obtain kf ef where f: "- 126 \<le> ef" "0 \<le> kf" "kf \<le> 2 ^ 24"
    "f = of_int kf * pow2 (ef - 23)"
    unfolding representable_def by blast
  show ?thesis
  proof (cases "e \<le> ef")
    case True
    then obtain d where d: "ef = e + int d" using zle_iff_zadd by blast
    have "ef - 23 = int d + (e - 23)" using d by simp
    then have "pow2 (ef - 23) = pow2 (int d) * u"
      unfolding u_def by (simp only: pow2_add)
    then have "f = of_int (kf * 2 ^ d) * u" by (simp add: f(4) pow2_nat)
    then show ?thesis using grid [of "kf * 2 ^ d"] by simp
  next
    case False
    then have lt: "ef < e" by simp
    with f(1) have en: "e = ilog2 z" "- 126 \<le> ilog2 z" by (simp_all add: e_def)
    have "f \<le> 2 ^ 24 * pow2 (ef - 23)"
    proof -
      have "(of_int kf :: rat) \<le> of_int (2 ^ 24)" using f(3) by (simp only: of_int_le_iff)
      then show ?thesis by (simp add: f(4) mult_right_mono)
    qed
    also have "\<dots> = pow2 (ef + 1)" by (rule pow2_24 [symmetric])
    also have "\<dots> \<le> pow2 e" using lt by (intro pow2_le) simp
    finally have fe: "f \<le> pow2 e" .
    have ez: "pow2 e \<le> z" unfolding en(1) using assms(1) by (rule ilog2_bounds)
    have "\<bar>rnd z - z\<bar> \<le> \<bar>of_int (2 ^ 23) * u - z\<bar>" by (rule grid)
    also have "of_int (2 ^ 23) * u = pow2 e" by (simp add: u_def pow2_23 [of e])
    also have "\<bar>pow2 e - z\<bar> \<le> \<bar>f - z\<bar>" using fe ez by simp
    finally show ?thesis .
  qed
qed

lemma rnd_idem:
  assumes "0 < v" "representable v"
  shows "rnd v = v"
proof -
  have "\<bar>rnd v - v\<bar> \<le> \<bar>v - v\<bar>" using assms by (rule rnd_nearest)
  then show ?thesis by simp
qed

lemma representable_0: "representable 0"
proof -
  have "- 126 \<le> (- 126 :: int) \<and> (0::int) \<le> 0 \<and> (0::int) \<le> 2 ^ 24
      \<and> (0::rat) = of_int 0 * pow2 (- 126 - 23)"
    by simp
  then show ?thesis unfolding representable_def by blast
qed

lemma representable_pow2:
  assumes "- 126 \<le> m"
  shows "representable (pow2 m)"
proof -
  have "pow2 m = of_int (2 ^ 23) * pow2 (m - 23)" using pow2_23 [of m] by simp
  moreover have "(0::int) \<le> 2 ^ 23" "(2::int) ^ 23 \<le> 2 ^ 24" by simp_all
  ultimately show ?thesis using assms unfolding representable_def by blast
qed

lemma representable_1: "representable 1"
  using representable_pow2 [of 0] by simp

lemma rnd_pos:
  assumes "0 < z" "representable f" "0 < f" "f \<le> z"
  shows "0 < rnd z"
proof -
  have "\<bar>rnd z - z\<bar> \<le> \<bar>f - z\<bar>" using assms(1,2) by (rule rnd_nearest)
  also have "\<bar>f - z\<bar> = z - f" using assms(4) by simp
  finally have "z - rnd z \<le> z - f" by linarith
  with assms(3) show ?thesis by linarith
qed

lemma rnd_form:
  assumes "0 < r"
  shows "\<exists>k. 0 \<le> k \<and> k \<le> 2 ^ 24 \<and> rnd r = of_int k * pow2 (max (ilog2 r) (- 126) - 23)"
proof -
  define e where "e = max (ilog2 r) (- 126)"
  define k where "k = round_even (r / pow2 (e - 23))"
  have "0 < r / pow2 (e - 23)" using assms pow2_pos by (rule divide_pos_pos)
  then have "(of_int 0 :: rat) \<le> r / pow2 (e - 23)" by simp
  then have k0: "0 \<le> k" unfolding k_def by (rule round_even_ge)
  have "r / pow2 (e - 23) \<le> of_int (2 ^ 24)"
    using grid_upper [OF assms e_def] by simp
  then have k1: "k \<le> 2 ^ 24" unfolding k_def by (rule round_even_le)
  have "rnd r = of_int k * pow2 (e - 23)"
    by (simp add: rnd_def Let_def k_def e_def)
  then show ?thesis using k0 k1 unfolding e_def by blast
qed

lemma ilog2_ge_0:
  assumes "1 \<le> n"
  shows "0 \<le> ilog2 n"
proof -
  have n: "0 < n" using assms by simp
  have "pow2 0 \<le> n" using assms by simp
  also have "n < pow2 (ilog2 n + 1)" using n by (rule ilog2_bounds)
  finally have "0 < ilog2 n + 1" by (rule pow2_less_cancel)
  then show ?thesis by simp
qed

lemma representable_scale:
  assumes "representable n" "1 \<le> n" "- 126 \<le> m"
  shows "representable (n * pow2 m)"
proof -
  have n: "0 < n" using assms(2) by simp
  have e: "max (ilog2 n) (- 126) = ilog2 n" using ilog2_ge_0 [OF assms(2)] by simp
  from rnd_form [OF n] obtain k where k: "0 \<le> k" "k \<le> 2 ^ 24"
    "rnd n = of_int k * pow2 (ilog2 n - 23)"
    unfolding e by blast
  have "n = of_int k * pow2 (ilog2 n - 23)"
    using rnd_idem [OF n assms(1)] k(3) by simp
  then have "n * pow2 m = of_int k * (pow2 (ilog2 n - 23) * pow2 m)" by simp
  also have "pow2 (ilog2 n - 23) * pow2 m = pow2 (ilog2 n - 23 + m)" by (rule pow2_add [symmetric])
  also have "ilog2 n - 23 + m = (ilog2 n + m) - 23" by simp
  finally have "n * pow2 m = of_int k * pow2 ((ilog2 n + m) - 23)" .
  moreover have "- 126 \<le> ilog2 n + m" using ilog2_ge_0 [OF assms(2)] assms(3) by simp
  ultimately show ?thesis using k(1,2) unfolding representable_def by blast
qed

lemma ilog2_subnormal:
  assumes "0 < y" "y < pow2 (- 126)"
  shows "max (ilog2 y) (- 126) = - 126"
proof -
  have "pow2 (ilog2 y) \<le> y" using assms(1) by (rule ilog2_bounds)
  also note assms(2)
  finally have "ilog2 y < - 126" by (rule pow2_less_cancel)
  then show ?thesis by simp
qed

text \<open>
  Dividing, multiplying back and dividing again: for representable \<open>x\<close> and
  \<open>n \<ge> 1\<close>, the rounded product of \<open>n\<close> and the rounded quotient \<open>q\<close> of \<open>x\<close> by
  \<open>n\<close> is no further from \<open>n * q\<close> than \<open>x\<close> is, so its quotient by \<open>n\<close> rounds to
  \<open>q\<close> again; where \<open>q\<close> is a power of two the product is exact.
\<close>

lemma rnd_round_trip:
  assumes x: "0 < x" "representable x"
    and n: "1 \<le> n" "representable n"
    and q: "q = rnd (x / n)" "0 < q"
  shows "rnd (rnd (n * q) / n) = q"
proof -
  define z where "z = x / n"
  define e where "e = max (ilog2 z) (- 126)"
  define u where "u = pow2 (e - 23)"
  define k where "k = round_even (z / u)"
  define w where "w = n * q"
  define p where "p = rnd w"
  define y where "y = p / n"
  have n0: "0 < n" using n(1) by simp
  have z0: "0 < z" unfolding z_def using x(1) n0 by (rule divide_pos_pos)
  have u0: "0 < u" by (simp add: u_def)
  have qz: "q = rnd z" by (simp only: q(1) z_def)
  have "rnd z = of_int k * u" by (simp only: rnd_def Let_def k_def e_def u_def)
  with qz have qk: "q = of_int k * u" by (simp only:)
  have qrep: "representable q" unfolding q(1) using z0 [unfolded z_def] by (rule rnd_representable)
  have w0: "0 < w" unfolding w_def using n0 q(2) by (rule mult_pos_pos)
  have qw: "q \<le> w"
  proof -
    have "1 * q \<le> n * q" using n(1) q(2) by (intro mult_right_mono) simp_all
    then show ?thesis by (simp add: w_def)
  qed
  have p0: "0 < p" unfolding p_def using w0 qrep q(2) qw by (rule rnd_pos)
  have y0: "0 < y" unfolding y_def using p0 n0 by (rule divide_pos_pos)
  have xz: "x = n * z" using n0 by (simp add: z_def)
  have py: "p = n * y" using n0 by (simp add: y_def)
  have "\<bar>p - w\<bar> \<le> \<bar>x - w\<bar>" unfolding p_def using w0 x(2) by (rule rnd_nearest)
  then have "\<bar>n * (y - q)\<bar> \<le> \<bar>n * (z - q)\<bar>"
    by (simp add: xz py w_def right_diff_distrib)
  then have "n * \<bar>y - q\<bar> \<le> n * \<bar>z - q\<bar>"
    using n0 by (simp add: abs_mult)
  then have yz: "\<bar>y - q\<bar> \<le> \<bar>z - q\<bar>"
    using n0 by simp
  have unit: "\<bar>t / u - of_int k\<bar> = \<bar>t - q\<bar> / u" for t
  proof -
    have "t / u - of_int k = (t - q) / u" using u0 by (simp add: qk field_simps)
    then show ?thesis using u0 by (simp add: abs_divide)
  qed
  have closer: "\<bar>y / u - of_int k\<bar> \<le> \<bar>z / u - of_int k\<bar>"
    unfolding unit using yz u0 by (simp add: divide_right_mono)
  have zerr: "\<bar>z / u - of_int k\<bar> \<le> 1 / 2"
    using round_even_err [of "z / u"] by (simp add: k_def abs_minus_commute)
  have yerr: "\<bar>y / u - of_int k\<bar> \<le> 1 / 2" using closer zerr by linarith
  have same: "rnd y = q" if "max (ilog2 y) (- 126) = e"
  proof -
    have "round_even (z / u) = k" by (simp only: k_def)
    then have re: "round_even (y / u) = k" using closer by (rule round_even_closer)
    have "rnd y = of_int (round_even (y / u)) * u"
      by (simp only: rnd_def Let_def that u_def)
    then show ?thesis by (simp only: re qk)
  qed
  have k0: "0 < k"
  proof -
    have "0 < of_int k * u" using q(2) qk by simp
    then have "(0::rat) < of_int k" using u0 by (simp add: zero_less_mult_iff)
    then show ?thesis by simp
  qed
  have pow: "rnd y = q" if "q = pow2 m" "- 126 \<le> m" for m
  proof -
    have "representable w" unfolding w_def that(1) using n(2,1) that(2) by (rule representable_scale)
    then have "p = w" unfolding p_def using w0 by (intro rnd_idem)
    then have "y = q" using n0 by (simp add: y_def w_def)
    then show ?thesis using rnd_idem [OF q(2) qrep] by simp
  qed
  have up: "z / u < 2 ^ 24" unfolding u_def using z0 e_def by (rule grid_upper)
  then have "z / u \<le> of_int (2 ^ 24)" by simp
  then have kup: "k \<le> 2 ^ 24" unfolding k_def by (rule round_even_le)
  show ?thesis unfolding w_def [symmetric] p_def [symmetric] y_def [symmetric]
  proof (cases "- 126 \<le> ilog2 z")
    case True
    then have ee: "e = ilog2 z" by (simp add: e_def)
    have "2 ^ 23 \<le> z / u" unfolding u_def using z0 True e_def by (rule grid_lower)
    then have "of_int (2 ^ 23) \<le> z / u" by simp
    then have klo: "2 ^ 23 \<le> k" unfolding k_def by (rule round_even_ge)
    consider "k = 2 ^ 23" | "k = 2 ^ 24" | "2 ^ 23 < k" "k < 2 ^ 24"
      using klo kup by linarith
    then show "rnd y = q"
    proof cases
      case 1
      then have "q = pow2 e" by (simp add: qk u_def pow2_23 [of e])
      moreover have "- 126 \<le> e" by (simp add: e_def)
      ultimately show ?thesis by (rule pow)
    next
      case 2
      then have "q = pow2 (e + 1)" by (simp add: qk u_def pow2_24 [of e])
      moreover have "- 126 \<le> e + 1" by (simp add: e_def)
      ultimately show ?thesis by (rule pow)
    next
      case 3
      then have "2 ^ 23 + 1 \<le> k" "k \<le> 2 ^ 24 - 1" by simp_all
      then have "(of_int (2 ^ 23 + 1) :: rat) \<le> of_int k" "(of_int k :: rat) \<le> of_int (2 ^ 24 - 1)"
        by (simp_all only: of_int_le_iff)
      then have kb: "(2 ^ 23 + 1 :: rat) \<le> of_int k" "(of_int k :: rat) \<le> 2 ^ 24 - 1"
        by simp_all
      have "2 ^ 23 \<le> y / u" "y / u < 2 ^ 24" using yerr kb by linarith+
      then have "2 ^ 23 * u \<le> y" "y < 2 ^ 24 * u"
        using u0 by (simp_all add: pos_le_divide_eq pos_divide_less_eq)
      then have "pow2 e \<le> y" "y < pow2 (e + 1)"
        by (simp_all add: u_def pow2_23 [of e] pow2_24 [of e])
      then have "ilog2 y = e" by (rule ilog2_unique)
      then have "max (ilog2 y) (- 126) = e" using True ee by simp
      then show ?thesis by (rule same)
    qed
  next
    case False
    then have ee: "e = - 126" by (simp add: e_def)
    have "z < pow2 (ilog2 z + 1)" using z0 by (rule ilog2_bounds)
    also have "\<dots> \<le> pow2 (- 126)" using False by (intro pow2_le) simp
    also have "\<dots> = 2 ^ 23 * u" by (simp add: u_def ee pow2_23 [of "- 126"])
    finally have "z / u < 2 ^ 23" using u0 by (simp add: pos_divide_less_eq)
    then have "z / u \<le> of_int (2 ^ 23)" by simp
    then have kup': "k \<le> 2 ^ 23" unfolding k_def by (rule round_even_le)
    show "rnd y = q"
    proof (cases "k = 2 ^ 23")
      case True
      then have "q = pow2 (- 126)" by (simp add: qk u_def ee pow2_23 [of "- 126"])
      then show ?thesis by (rule pow) simp
    next
      case False
      with kup' have "k \<le> 2 ^ 23 - 1" by simp
      then have "(of_int k :: rat) \<le> of_int (2 ^ 23 - 1)" by (simp only: of_int_le_iff)
      then have kb: "(of_int k :: rat) \<le> 2 ^ 23 - 1" by simp
      have "y / u < 2 ^ 23" using yerr kb by linarith
      then have "y < 2 ^ 23 * u" using u0 by (simp add: pos_divide_less_eq)
      then have "y < pow2 (- 126)" by (simp add: u_def ee pow2_23 [of "- 126"])
      with y0 have "max (ilog2 y) (- 126) = - 126" by (rule ilog2_subnormal)
      then have "max (ilog2 y) (- 126) = e" by (simp add: ee)
      then show ?thesis by (rule same)
    qed
  qed
qed

lemma rnd_nonneg:
  assumes "0 < r"
  shows "0 \<le> rnd r"
proof -
  from rnd_form [OF assms] obtain k where k: "0 \<le> k"
    "rnd r = of_int k * pow2 (max (ilog2 r) (- 126) - 23)" by blast
  have "(0::rat) \<le> of_int k" using k(1) by simp
  then have "0 \<le> of_int k * pow2 (max (ilog2 r) (- 126) - 23)"
    by (rule mult_nonneg_nonneg) (simp add: less_imp_le)
  then show ?thesis by (simp only: k(2))
qed

lemma round32_canonical:
  assumes "0 \<le> r"
  shows "canonical (round32 s r)"
proof (cases "r = 0")
  case True
  then show ?thesis by (simp add: round32_rnd canonical_def representable_0)
next
  case False
  with assms have r: "0 < r" by simp
  show ?thesis
    using False rnd_nonneg [OF r] rnd_representable [OF r]
    by (simp add: round32_rnd canonical_def)
qed

lemma fl_canonical: "canonical (fl z)"
  unfolding fl_def by (rule round32_canonical) simp

lemma fadd32_canonical: "canonical (fadd32 a b)"
proof (cases a; cases b)
  fix s x t y
  assume "a = Fin s x" "b = Fin t y"
  then show ?thesis
    using fl_canonical [of "sval s x + sval t y"]
    by (simp add: Let_def canonical_def representable_0)
qed (simp_all add: canonical_def)

lemma fsum_canonical: "canonical (fsum ieee_single xs)"
proof (cases xs rule: rev_cases)
  case Nil
  then show ?thesis by (simp add: fsum_def ieee_single_def canonical_def representable_0)
next
  case (snoc ys y)
  then show ?thesis by (simp add: fsum_def ieee_single_def fadd32_canonical)
qed

lemma float_of_int32_pos:
  assumes "1 \<le> sint t"
  shows "\<exists>n. float_of_int32 t = Fin False n \<and> 1 \<le> n \<and> representable n \<and> n < pow2 128"
proof -
  define T :: rat where "T = of_int (sint t)"
  have "(of_int 1 :: rat) \<le> of_int (sint t)" using assms by (simp only: of_int_le_iff)
  then have T1: "1 \<le> T" by (simp add: T_def)
  then have T0: "0 < T" by simp
  have "sint t < 2 ^ 31" using sint_int32_range [of t] by simp
  then have "(of_int (sint t) :: rat) < of_int (2 ^ 31)" by (simp only: of_int_less_iff)
  then have Tu: "T < 2 ^ 31" by (simp add: T_def)
  have "\<bar>rnd T - T\<bar> \<le> \<bar>0 - T\<bar>" using T0 representable_0 by (rule rnd_nearest)
  then have "rnd T \<le> 2 * T" using T0 by linarith
  with Tu have "rnd T < 2 ^ 32" by simp
  also have "(2 ^ 32 :: rat) = pow2 32" by (simp add: pow2_def)
  also have "pow2 32 \<le> pow2 128" by (rule pow2_le) simp
  finally have up: "rnd T < pow2 128" .
  have "\<bar>rnd T - T\<bar> \<le> \<bar>1 - T\<bar>" using T0 representable_1 by (rule rnd_nearest)
  then have lo: "1 \<le> rnd T" using T1 by linarith
  have "float_of_int32 t = fl T" by (simp only: float_of_int32_def T_def)
  also have "\<dots> = round32 False T" using T0 by (simp add: fl_def)
  also have "\<dots> = Fin False (rnd T)" using T0 up by (simp add: round32_rnd)
  finally show ?thesis using lo up rnd_representable [OF T0] by blast
qed

lemma fzero_plus:
  assumes "0 < v" "representable v" "v < pow2 128"
  shows "fadd32 (Fin False 0) (Fin s v) = Fin s v"
proof -
  have z: "sval False 0 + sval s v \<noteq> 0" using assms(1) by (simp add: sval_def)
  have "fl (sval s v) = round32 s v" using assms(1) by (simp add: fl_def sval_def)
  also have "\<dots> = Fin s v"
    using assms rnd_idem [OF assms(1,2)] by (simp add: round32_rnd)
  finally show ?thesis using z by (simp add: Let_def sval_def)
qed

text \<open>
  The one-term weighted average of the quotient of a sum by a count, on \<open>float\<close>
  values with their signs, infinities and NaN.
\<close>

lemma single_term:
  assumes S: "canonical S"
    and N: "1 \<le> n" "representable n" "n < pow2 128"
    and avg: "avg = fdiv32 S (Fin False n)"
    and fin: "finite32 avg \<longrightarrow> finite32 (fmul32 (Fin False n) avg)"
  shows "fdiv32 (fadd32 (Fin False 0) (fmul32 (Fin False n) avg))
           (fadd32 (Fin False 0) (Fin False n))
         = (if avg = Fin True 0 then Fin False 0 else avg)"
proof -
  have n0: "0 < n" "n \<noteq> 0" using N(1) by simp_all
  have den: "fadd32 (Fin False 0) (Fin False n) = Fin False n"
    using n0(1) N(2,3) by (rule fzero_plus)
  have inf: ?thesis if "avg = Inf s" for s
    unfolding den unfolding that using n0 by simp
  have zero: ?thesis if "avg = Fin s 0" for s
    unfolding den unfolding that using n0 by (cases s) (simp_all add: round32_rnd sval_def)
  show ?thesis
  proof (cases S)
    case NaN
    then have "avg = NaN" by (simp add: avg)
    then show ?thesis unfolding den by simp
  next
    case (Inf s)
    then have "avg = Inf s" using n0 by (simp add: avg)
    then show ?thesis by (rule inf)
  next
    case (Fin s x)
    with S have x: "0 \<le> x" "representable x" by (simp_all add: canonical_def)
    have a: "avg = round32 s (x / n)" using n0 by (simp add: avg Fin)
    show ?thesis
    proof (cases "x = 0")
      case True
      then have "avg = Fin s 0" by (simp add: a round32_rnd)
      then show ?thesis by (rule zero)
    next
      case False
      with x(1) have x0: "0 < x" by simp
      have z0: "0 < x / n" using x0 n0(1) by (rule divide_pos_pos)
      define q where "q = rnd (x / n)"
      have q0: "0 \<le> q" unfolding q_def using z0 by (rule rnd_nonneg)
      have qrep: "representable q" unfolding q_def using z0 by (rule rnd_representable)
      show ?thesis
      proof (cases "pow2 128 \<le> q")
        case True
        then have "avg = Inf s" using z0 x0 n0 by (simp add: a round32_rnd q_def)
        then show ?thesis by (rule inf)
      next
        case False
        then have aq: "avg = Fin s q" using z0 x0 n0 by (simp add: a round32_rnd q_def)
        show ?thesis
        proof (cases "q = 0")
          case True
          with aq have "avg = Fin s 0" by simp
          then show ?thesis by (rule zero)
        next
          case False
          with q0 have qp: "0 < q" by simp
          define p where "p = rnd (n * q)"
          have w0: "0 < n * q" using n0(1) qp by (rule mult_pos_pos)
          have "1 * q \<le> n * q" using N(1) qp by (intro mult_right_mono) simp_all
          then have qw: "q \<le> n * q" by simp
          have p0: "0 < p" unfolding p_def using w0 qrep qp qw by (rule rnd_pos)
          have prep: "representable p" unfolding p_def using w0 by (rule rnd_representable)
          have prod: "fmul32 (Fin False n) avg = round32 s (n * q)" by (simp add: aq)
          have pfin: "p < pow2 128"
          proof (rule ccontr)
            assume "\<not> p < pow2 128"
            then have "round32 s (n * q) = Inf s" using qp n0 by (simp add: round32_rnd p_def)
            with fin show False by (simp add: prod aq finite32_def)
          qed
          then have "fmul32 (Fin False n) avg = Fin s p"
            using qp n0 by (simp add: prod round32_rnd p_def)
          then have num: "fadd32 (Fin False 0) (fmul32 (Fin False n) avg) = Fin s p"
            using fzero_plus [OF p0 prep pfin] by simp
          have pn: "p / n \<noteq> 0" using p0 n0 by simp
          have rt: "rnd (p / n) = q"
            unfolding p_def using x0 x(2) N(1,2) q_def qp by (rule rnd_round_trip)
          have "fdiv32 (Fin s p) (Fin False n) = round32 s (p / n)" using n0 by simp
          also have "\<dots> = Fin s q" using p0 n0 \<open>\<not> pow2 128 \<le> q\<close> by (simp add: round32_rnd rt)
          finally show ?thesis unfolding num den using False by (simp add: aq)
        qed
      qed
    qed
  qed
qed

lemma single_worker_plan:
  assumes "length cs = 1" "length ds = 1"
  shows "split_num_between_processes total_elements 1 cs ds = Inr ([total_elements], [0])"
proof -
  have cd: "c_div total_elements 1 = Inr (word_of_int (sint total_elements sdiv sint (1 :: int32)))"
    by (rule c_div_defined) simp
  show ?thesis
    using split_words [OF cd, of cs ds 0] assms by simp
qed

text \<open>
  C7, as the code has it: with one worker the plan is the count \<open>total_elements\<close> at
  offset 0 and the Local Slice is the entire Global Array.  In single precision the
  weighted average, \<open>(0.f + total_elements * avg) / (0.f + total_elements)\<close>, is the
  direct average \<open>avg\<close> exactly whenever the product \<open>total_elements * avg\<close> does not
  overflow; an average that is the negative zero comes back as the positive zero, which
  \<open>==\<close> does not tell apart.
\<close>

theorem single_worker:
  assumes "0 \<le> sint total_elements"
    and "length cs = 1" "length ds = 1"
    and "length global_array = nat (sint total_elements)"
  shows "split_num_between_processes total_elements 1 cs ds = Inr ([total_elements], [0]) \<and>
     MPI_Scatterv global_array [total_elements] [0] = Inr [global_array] \<and>
     (\<exists>avg. compute_avg ieee_single global_array total_elements = Inr avg \<and>
        ((finite32 avg \<longrightarrow> finite32 (fmul32 (float_of_int32 total_elements) avg)) \<longrightarrow>
           compute_weighted_avg ieee_single [avg] [total_elements] 1
             = Inr (if avg = Fin True 0 then Fin False 0 else avg)))"
proof -
  let ?N = "float_of_int32 total_elements"
  define avg where "avg = fdiv32 (fsum ieee_single global_array) ?N"
  have plan: "split_num_between_processes total_elements 1 cs ds = Inr ([total_elements], [0])"
    using assms(2,3) by (rule single_worker_plan)
  have sc: "MPI_Scatterv global_array [total_elements] [0] = Inr [global_array]"
    using assms(1,4) by (simp add: local_slice_def)
  have a: "compute_avg ieee_single global_array total_elements = Inr avg"
    using compute_avg_eq [of total_elements global_array ieee_single] assms(4)
    by (simp add: avg_def) (simp add: ieee_single_def)
  have w: "compute_weighted_avg ieee_single [avg] [total_elements] 1 =
      Inr (fdiv32 (fadd32 (Fin False 0) (fmul32 ?N avg)) (fadd32 (Fin False 0) ?N))"
    using compute_weighted_avg_eq [of 1 "[avg]" "[total_elements]" ieee_single]
    by (simp add: spec_weighted_mean_def fsum_def) (simp add: ieee_single_def)
  have eq: "fdiv32 (fadd32 (Fin False 0) (fmul32 ?N avg)) (fadd32 (Fin False 0) ?N)
      = (if avg = Fin True 0 then Fin False 0 else avg)"
    if fin: "finite32 avg \<longrightarrow> finite32 (fmul32 ?N avg)"
  proof (cases "1 \<le> sint total_elements")
    case True
    from float_of_int32_pos [OF True] obtain n where
      n: "?N = Fin False n" "1 \<le> n" "representable n" "n < pow2 128" by blast
    show ?thesis
      unfolding n(1)
      using fsum_canonical n(2,3,4) avg_def [unfolded n(1)] fin [unfolded n(1)]
      by (rule single_term)
  next
    case False
    with assms(1) have "sint total_elements = 0" by simp
    then have t: "total_elements = 0" by (simp add: signed_eq_0_iff)
    with assms(4) have g: "global_array = []" by simp
    have "avg = NaN"
      by (simp add: avg_def t g fsum_def ieee_single_def float_of_int32_def fl_def round32_rnd)
    then show ?thesis by simp
  qed
  from plan sc a w eq show ?thesis by auto
qed

theorem single_worker_witness:
  "split_num_between_processes 3 1 [7] [9] = Inr ([3], [0]) \<and>
   MPI_Scatterv
     [Fin False (13421773 / 134217728), Fin False (13421773 / 67108864),
      Fin False (5033165 / 16777216)] [3] [0]
     = Inr [[Fin False (13421773 / 134217728), Fin False (13421773 / 67108864),
             Fin False (5033165 / 16777216)]] \<and>
   compute_avg ieee_single
     [Fin False (13421773 / 134217728), Fin False (13421773 / 67108864),
      Fin False (5033165 / 16777216)] 3
     = Inr (Fin False (13421773 / 67108864)) \<and>
   finite32 (fmul32 (float_of_int32 3) (Fin False (13421773 / 67108864))) \<and>
   compute_weighted_avg ieee_single [Fin False (13421773 / 67108864)] [3] 1
     = Inr (Fin False (13421773 / 67108864))"
proof -
  have e: "compute_avg ieee_single
     [Fin False (13421773 / 134217728), Fin False (13421773 / 67108864),
      Fin False (5033165 / 16777216)] 3
     = Inr (Fin False (13421773 / 67108864))"
    by code_simp
  have f: "finite32 (fmul32 (float_of_int32 3) (Fin False (13421773 / 67108864)))"
    by code_simp
  from single_worker [of 3 "[7]" "[9]"
      "[Fin False (13421773 / 134217728), Fin False (13421773 / 67108864),
        Fin False (5033165 / 16777216)]"] e f
  show ?thesis by auto
qed

text \<open>
  The claim as stated fails in single precision: for 25 elements, the first the
  largest finite \<open>float\<close> and the others 0, the direct average is finite, the product
  of 25 and the average overflows, and the weighted average is \<open>+infinity\<close>.
\<close>

theorem single_worker_overflow:
  "split_num_between_processes 25 1 [0] [0] = Inr ([25], [0]) \<and>
   MPI_Scatterv
     (Fin False 340282346638528859811704183484516925440 # replicate 24 (Fin False 0)) [25] [0]
     = Inr [Fin False 340282346638528859811704183484516925440 # replicate 24 (Fin False 0)] \<and>
   compute_avg ieee_single
     (Fin False 340282346638528859811704183484516925440 # replicate 24 (Fin False 0)) 25
     = Inr (Fin False 13611294372601394483759927938061959168) \<and>
   compute_weighted_avg ieee_single [Fin False 13611294372601394483759927938061959168] [25] 1
     = Inr (Inf False)"
  by code_simp

section \<open>Properties of the program\<close>

text \<open>
  C8: for every invocation whose argument count is not exactly one positional
  argument (\<open>argc \<noteq> 2\<close>), the program writes the usage message to standard error and
  exits with code 1, and does nothing else that can be observed.
\<close>

theorem usage_error:
  assumes "argc \<noteq> 2"
  shows "main A env argc argv = ([Fprintf_stderr usage], Exited 1)"
  using assms by (simp add: main_def)


theorem usage_error_witness:
  "(1 :: int32) \<noteq> 2 \<and>
   main ieee_single
     \<lparr>atoi = (\<lambda>s. 0), time_now = 0, rand = (\<lambda>i. 0), RAND_MAX = 2147483647,
      world_rank = 0, world_size = 4, uninitialised = (\<lambda>i. 0)\<rparr> 1 [''avg'']
     = ([Fprintf_stderr (''Usage: avg total_num_elements'' @ [CHR 0x0A])], Exited 1)"
  using usage_error [of 1 ieee_single
      "\<lparr>atoi = (\<lambda>s. 0), time_now = 0, rand = (\<lambda>i. 0), RAND_MAX = 2147483647,
        world_rank = 0, world_size = 4, uninitialised = (\<lambda>i. 0)\<rparr>" "[''avg'']"]
  by (simp add: usage_def)

end
